theory Spec2Isabelle
  imports Main "HOL-Library.Sublist" "HOL-Library.Multiset"
begin

section \<open>Shared data model\<close>

text \<open>
  The crawler and the store exchange Python dictionaries. Every key the code reads is a
  field here; \<open>None\<close> stands for a key that is absent from the dictionary.
  \<open>_extract_page_data\<close> fills type, title, url, content, timestamp and links;
  \<open>search\<close> fills all of them but links.
\<close>

record item =
  i_type :: "string option"
  i_title :: "string option"
  i_url :: "string option"
  i_content :: "string option"
  i_timestamp :: "string option"
  i_links :: "nat option"

text \<open>Exceptions that the modelled code can raise or catch.\<close>

datatype exn =
    KeyError
  | IndexError
  | TypeError
  | ValueError
  | UnicodeEncodeError
  | UnicodeDecodeError
  | InvalidToken
  | JSONDecodeError
  | FileNotFoundError
  | RequestException string

section \<open>String helpers of the Python runtime\<close>

text \<open>\<open>ord(c)\<close> of a character.\<close>

definition ord :: "char \<Rightarrow> nat" where
  "ord c = of_char c"

definition digit_char :: "nat \<Rightarrow> char" where
  "digit_char d = char_of (48 + d)"

text \<open>\<open>str(n)\<close> for a non-negative integer.\<close>

fun str_nat :: "nat \<Rightarrow> string" where
  "str_nat n = (if n < 10 then [digit_char n] else str_nat (n div 10) @ [digit_char (n mod 10)])"

declare str_nat.simps [simp del]

text \<open>\<open>range(n)\<close>: empty when \<open>n\<close> is not positive.\<close>

definition py_range :: "int \<Rightarrow> nat list" where
  "py_range n = [0 ..< nat n]"

text \<open>\<open>str.lower()\<close> on ASCII letters; other characters are left as they are.\<close>

definition lower_char :: "char \<Rightarrow> char" where
  "lower_char c = (if 65 \<le> ord c \<and> ord c \<le> 90 then char_of (ord c + 32) else c)"

definition lower :: "string \<Rightarrow> string" where
  "lower s = map lower_char s"

definition endswith :: "string \<Rightarrow> string \<Rightarrow> bool" where
  "endswith s suf = (length suf \<le> length s \<and> drop (length s - length suf) s = suf)"

definition startswith :: "string \<Rightarrow> string \<Rightarrow> bool" where
  "startswith s pre = (take (length pre) s = pre)"

section \<open>OnionScraper.search and the CLI bound (onion\_scraper.py, main.py)\<close>

text \<open>
  \<open>search\<close> fabricates its results. The draws of \<open>random.randint(1, 100)\<close> are the
  parameter \<open>rnd\<close> (the draw of iteration \<open>i\<close>), the formatted clock is \<open>now\<close>.
\<close>

definition search_result :: "(nat \<Rightarrow> nat) \<Rightarrow> string \<Rightarrow> string \<Rightarrow> nat \<Rightarrow> item" where
  "search_result rnd now query i =
     \<lparr> i_type = Some ''search_result'',
       i_title = Some (''Result for '' @ [CHR 0x27] @ query @ [CHR 0x27] @ '' #'' @ str_nat (i + 1)),
       i_url = Some (''http://simulated'' @ str_nat (rnd i) @ ''.onion''),
       i_content = Some (''Sample content containing '' @ query),
       i_timestamp = Some now,
       i_links = None \<rparr>"

definition search :: "(nat \<Rightarrow> nat) \<Rightarrow> string \<Rightarrow> string \<Rightarrow> int \<Rightarrow> item list" where
  "search rnd now query max_results =
     map (search_result rnd now query) (py_range (min max_results 5))"

text \<open>
  \<open>_search_services\<close> in main.py: the number typed by the user is clamped to 10..100
  (and is 25 when it does not parse, \<open>None\<close> here).
\<close>

definition clamp_max_results :: "int option \<Rightarrow> int" where
  "clamp_max_results typed = (case typed of None \<Rightarrow> 25 | Some v \<Rightarrow> min (max v 10) 100)"

section \<open>Link validation (onion\_scraper.py)\<close>

text \<open>
  The scheme and network location that \<open>urllib.parse.urlparse\<close> returns, for URLs
  without control characters and without non-ASCII characters: the scheme is the text
  before the first colon when it starts with a letter and consists of scheme characters,
  lower-cased; the netloc follows a leading \<open>//\<close> and runs to the first of
  \<open>/ ? #\<close>. Unbalanced square brackets in the netloc raise \<open>ValueError\<close>.
\<close>

definition is_alpha :: "char \<Rightarrow> bool" where
  "is_alpha c = ((65 \<le> ord c \<and> ord c \<le> 90) \<or> (97 \<le> ord c \<and> ord c \<le> 122))"

definition is_digit :: "char \<Rightarrow> bool" where
  "is_digit c = (48 \<le> ord c \<and> ord c \<le> 57)"

definition scheme_char :: "char \<Rightarrow> bool" where
  "scheme_char c = (is_alpha c \<or> is_digit c \<or> c = CHR ''+'' \<or> c = CHR ''-'' \<or> c = CHR ''.'')"

definition split_scheme :: "string \<Rightarrow> string \<times> string" where
  "split_scheme url =
     (let pre = takeWhile (\<lambda>c. c \<noteq> CHR '':'') url in
      if length pre < length url \<and> pre \<noteq> [] \<and> is_alpha (hd pre) \<and> list_all scheme_char pre
      then (lower pre, drop (length pre + 1) url)
      else ([], url))"

definition splitnetloc :: "string \<Rightarrow> string" where
  "splitnetloc rest = takeWhile (\<lambda>c. c \<noteq> CHR ''/'' \<and> c \<noteq> CHR ''?'' \<and> c \<noteq> CHR ''#'') rest"

record parsed_url =
  scheme :: string
  netloc :: string

definition urlparse :: "string \<Rightarrow> exn + parsed_url" where
  "urlparse url =
     (let (sch, rest) = split_scheme url in
      if take 2 rest = ''//'' then
        (let nl = splitnetloc (drop 2 rest) in
         if (CHR ''['' \<in> set nl \<and> CHR '']'' \<notin> set nl) \<or> (CHR '']'' \<in> set nl \<and> CHR ''['' \<notin> set nl)
         then Inl ValueError
         else Inr \<lparr> scheme = sch, netloc = nl \<rparr>)
      else Inr \<lparr> scheme = sch, netloc = [] \<rparr>)"

text \<open>\<open>_validate_onion_url\<close>: any exception of the parse gives \<open>False\<close>.\<close>

definition validate_onion_url :: "string \<Rightarrow> bool" where
  "validate_onion_url url =
     (case urlparse url of
        Inl e \<Rightarrow> False
      | Inr parsed \<Rightarrow>
          (scheme parsed = ''http'' \<or> scheme parsed = ''https'') \<and>
          endswith (netloc parsed) ''.onion'' \<and>
          length (netloc parsed) = 22)"

text \<open>
  The blacklist patterns all have the shape \<open>\.ext$\<close>. With \<open>re.search\<close> the anchor
  \<open>$\<close> matches at the end of the string and just before a newline that ends it.
\<close>

definition blacklist :: "string list" where
  "blacklist = [''.exe'', ''.zip'', ''.rar'', ''.tar'', ''.gz'',
                ''.mp3'', ''.mp4'', ''.avi'', ''.mkv'', ''.pdf'']"

definition re_search_suffix :: "string \<Rightarrow> string \<Rightarrow> bool" where
  "re_search_suffix ext s = (endswith s ext \<or> endswith s (ext @ [CHR 0x0A]))"

definition is_blacklisted :: "string \<Rightarrow> bool" where
  "is_blacklisted url = list_ex (\<lambda>ext. re_search_suffix ext (lower url)) blacklist"

section \<open>Tor controller and fetcher (tor\_controller.py, onion\_scraper.py)\<close>

text \<open>
  The network is outside the program. \<open>transport k url\<close> is what the \<open>k\<close>-th call of
  \<open>session.get\<close> of this run does for \<open>url\<close>: it answers with a status and a body, or it
  raises. \<open>control k\<close> says whether the \<open>k\<close>-th NEWNYM request gets through to the
  control port. The world counts the calls and keeps them, in order, in a trace.
\<close>

datatype outcome = Response nat string | Failure exn

datatype event = Delay | Get string | Pause | Renew bool

record net =
  transport :: "nat \<Rightarrow> string \<Rightarrow> outcome"
  control :: "nat \<Rightarrow> bool"

record world =
  requests :: nat
  renewals :: nat
  trace :: "event list"

definition world0 :: world where
  "world0 = \<lparr> requests = 0, renewals = 0, trace = [] \<rparr>"

definition emit :: "event \<Rightarrow> world \<Rightarrow> world" where
  "emit ev w = w\<lparr> trace := trace w @ [ev] \<rparr>"

text \<open>
  \<open>TorController.renew_identity\<close>: every exception of the control channel is caught and
  gives \<open>False\<close>; the call itself never raises.
\<close>

definition renew_identity :: "net \<Rightarrow> world \<Rightarrow> bool \<times> world" where
  "renew_identity N w =
     (let ok = control N (renewals w)
      in (ok, emit (Renew ok) (w\<lparr> renewals := renewals w + 1 \<rparr>)))"

definition session_get :: "net \<Rightarrow> string \<Rightarrow> world \<Rightarrow> outcome \<times> world" where
  "session_get N url w =
     (transport N (requests w) url, emit (Get url) (w\<lparr> requests := requests w + 1 \<rparr>))"

definition max_retries :: nat where
  "max_retries = 3"

text \<open>
  The loop \<open>for attempt in range(self.max_retries)\<close> of \<open>_fetch_url\<close>. The result is
  \<open>Inr (Some text)\<close> for \<open>return response.text\<close>, \<open>Inr None\<close> for \<open>return None\<close> and
  \<open>Inl e\<close> when the exception \<open>e\<close> leaves the function.
\<close>

function fetch_attempts ::
  "net \<Rightarrow> nat \<Rightarrow> string \<Rightarrow> nat \<Rightarrow> world \<Rightarrow> (exn + string option) \<times> world" where
  "fetch_attempts N budget url attempt w =
     (if budget \<le> attempt then (Inr None, w)
      else
        (case session_get N url (emit Delay w) of
           (Response status text, w2) \<Rightarrow>
             if status = 200 then (Inr (Some text), w2)
             else if status = 403 \<or> status = 404 then (Inr None, w2)
             else (Inr None, w2)
         | (Failure e, w2) \<Rightarrow>
             if attempt = budget - 1 then (Inl e, w2)
             else fetch_attempts N budget url (attempt + 1) (snd (renew_identity N (emit Pause w2)))))"
  by pat_completeness auto
termination
  by (relation "measure (\<lambda>(N, budget, url, attempt, w). budget - attempt)") auto

declare fetch_attempts.simps [simp del]

definition fetch_url :: "net \<Rightarrow> string \<Rightarrow> world \<Rightarrow> (exn + string option) \<times> world" where
  "fetch_url N url w = fetch_attempts N max_retries url 0 w"

text \<open>
  What one failed attempt that is followed by another leaves in the trace: the random
  delay, the request, the pause of five seconds and the call of \<open>renew_identity\<close>.
\<close>

definition retry_round :: "net \<Rightarrow> string \<Rightarrow> nat \<Rightarrow> nat \<Rightarrow> event list" where
  "retry_round N url r0 j = [Delay, Get url, Pause, Renew (control N (r0 + j))]"

text \<open>Transports used as concrete inputs.\<close>

definition net500 :: net where
  "net500 = \<lparr> transport = (\<lambda>k url. Response 500 ''Internal Server Error''), control = (\<lambda>k. True) \<rparr>"

definition net404 :: net where
  "net404 = \<lparr> transport = (\<lambda>k url. Response 404 ''Not Found''), control = (\<lambda>k. True) \<rparr>"

definition net_down :: net where
  "net_down = \<lparr> transport = (\<lambda>k url. Failure (RequestException (''timed out '' @ str_nat k))),
                 control = (\<lambda>k. True) \<rparr>"

definition net_flaky :: net where
  "net_flaky = \<lparr> transport = (\<lambda>k url. if k < 2 then Failure (RequestException ''timed out'')
                                        else Response 200 ''<html>ok</html>''),
                  control = (\<lambda>k. False) \<rparr>"

section \<open>Crawl engine (onion\_scraper.py)\<close>

text \<open>
  What the code reads from \<open>BeautifulSoup(html, 'html.parser')\<close> once the script, style,
  iframe and noscript elements are removed: \<open>soup.title\<close> with its \<open>.string\<close> (absent
  tag, tag without a single string, or a string), the stripped strings joined by a blank,
  the number of \<open>a\<close> elements, and the \<open>href\<close> values of the \<open>a\<close> elements that have
  one, in document order.
\<close>

record soup =
  soup_title :: "string option option"
  soup_text :: string
  soup_anchors :: nat
  soup_hrefs :: "string list"

text \<open>
  The collaborators of one crawl. \<open>fetch\<close> is the outcome of \<open>_fetch_url\<close> for a URL
  (the crawl asks for every URL at most once, so a function of the URL describes a run:
  it is the link graph of a mock fetcher); \<open>parse_html\<close> is the HTML parser, \<open>urljoin\<close> the
  library function (it raises \<open>ValueError\<close> for some malformed references), \<open>clock\<close> the
  formatted time.
\<close>

record site =
  fetch :: "string \<Rightarrow> exn + string option"
  parse_html :: "string \<Rightarrow> soup"
  urljoin :: "string \<Rightarrow> string \<Rightarrow> exn + string"
  clock :: string

definition is_space :: "char \<Rightarrow> bool" where
  "is_space c = ((9 \<le> ord c \<and> ord c \<le> 13) \<or> (28 \<le> ord c \<and> ord c \<le> 32))"

definition strip :: "string \<Rightarrow> string" where
  "strip s = rev (dropWhile is_space (rev (dropWhile is_space s)))"

text \<open>\<open>_extract_page_data\<close>. \<open>title[:200]\<close> raises \<open>TypeError\<close> when \<open>soup.title.string\<close> is \<open>None\<close>.\<close>

definition extract_page_data :: "site \<Rightarrow> string \<Rightarrow> string \<Rightarrow> exn + item" where
  "extract_page_data S url html =
     (let sp = parse_html S html;
          page = (\<lambda>title. \<lparr> i_type = Some ''page'',
                             i_title = Some (take 200 title),
                             i_url = Some url,
                             i_content = Some (take 5000 (soup_text sp)),
                             i_timestamp = Some (clock S),
                             i_links = Some (soup_anchors sp) \<rparr>)
      in case soup_title sp of
           None \<Rightarrow> Inr (page url)
         | Some None \<Rightarrow> Inl TypeError
         | Some (Some t) \<Rightarrow> Inr (page t))"

text \<open>
  \<open>_extract_links\<close>. The Python set of links is a duplicate-free list here; the order in
  which \<open>list(links)\<close> enumerates a set is not fixed by the language, and no property
  below depends on it.
\<close>

definition followable :: "string \<Rightarrow> bool" where
  "followable href =
     (href \<noteq> [] \<and> \<not> startswith href ''javascript:'' \<and> \<not> startswith href ''mailto:'' \<and>
      \<not> startswith href ''#'')"

text \<open>The loop over the anchors: the first exception of \<open>urljoin\<close> ends it.\<close>

fun join_links :: "site \<Rightarrow> string \<Rightarrow> string list \<Rightarrow> exn + string list" where
  "join_links S base_url [] = Inr []"
| "join_links S base_url (href # hrefs) =
     (if \<not> followable (strip href) then join_links S base_url hrefs
      else
        (case urljoin S base_url (strip href) of
           Inl e \<Rightarrow> Inl e
         | Inr full_url \<Rightarrow>
             (case join_links S base_url hrefs of
                Inl e \<Rightarrow> Inl e
              | Inr rest \<Rightarrow>
                  if validate_onion_url full_url \<and> \<not> is_blacklisted full_url
                  then Inr (full_url # rest) else Inr rest)))"

definition extract_links :: "site \<Rightarrow> string \<Rightarrow> string \<Rightarrow> exn + string list" where
  "extract_links S base_url html =
     (case join_links S base_url (soup_hrefs (parse_html S html)) of
        Inl e \<Rightarrow> Inl e
      | Inr links \<Rightarrow> Inr (take 20 (remdups links)))"

record crawl_state =
  visited_urls :: "string set"
  results :: "item list"

text \<open>
  \<open>_crawl\<close> and its loop over the extracted links. Every exception raised between the
  fetch and the end of the loop is caught by the \<open>except\<close> of the same call, which only
  prints: the state reached so far is what the call leaves behind.
\<close>

function crawl :: "site \<Rightarrow> int \<Rightarrow> string \<Rightarrow> nat \<Rightarrow> crawl_state \<Rightarrow> crawl_state"
  and crawl_links :: "site \<Rightarrow> int \<Rightarrow> string list \<Rightarrow> nat \<Rightarrow> crawl_state \<Rightarrow> crawl_state" where
  "crawl S depth url current_depth s =
     (if int current_depth > depth \<or> url \<in> visited_urls s then s
      else
        let s1 = s\<lparr> visited_urls := insert url (visited_urls s) \<rparr> in
        case fetch S url of
          Inl e \<Rightarrow> s1
        | Inr None \<Rightarrow> s1
        | Inr (Some html_content) \<Rightarrow>
            if html_content = [] then s1
            else
              (case extract_page_data S url html_content of
                 Inl e \<Rightarrow> s1
               | Inr page_data \<Rightarrow>
                   let s2 = s1\<lparr> results := results s1 @ [page_data] \<rparr> in
                   if int current_depth < depth
                   then (case extract_links S url html_content of
                           Inl e \<Rightarrow> s2
                         | Inr links \<Rightarrow> crawl_links S depth links (current_depth + 1) s2)
                   else s2))"
| "crawl_links S depth [] d s = s"
| "crawl_links S depth (link # links) d s = crawl_links S depth links d (crawl S depth link d s)"
  by pat_completeness auto
termination
  by (relation "inv_image (less_than <*lex*> less_than)
        (\<lambda>x. case x of
                Inl (S, depth, url, cur, s) \<Rightarrow> (nat (depth + 1 - int cur), 0)
              | Inr (S, depth, links, d, s) \<Rightarrow> (nat (depth + 1 - int d), Suc (length links)))")
     auto

declare crawl.simps [simp del]

text \<open>\<open>scrape\<close>: an invalid seed raises \<open>ValueError\<close>; the visited set starts empty.\<close>

definition scrape :: "site \<Rightarrow> string \<Rightarrow> int \<Rightarrow> exn + item list" where
  "scrape S onion_url depth =
     (if \<not> validate_onion_url onion_url then Inl ValueError
      else Inr (results (crawl S depth onion_url 0 \<lparr> visited_urls = {}, results = [] \<rparr>)))"

text \<open>
  The link graph of a site: \<open>hops S seed k u\<close> holds when \<open>u\<close> is reached from \<open>seed\<close>
  by following \<open>k\<close> extracted links, each from a page that was fetched with content.
\<close>

inductive hops :: "site \<Rightarrow> string \<Rightarrow> nat \<Rightarrow> string \<Rightarrow> bool" for S seed where
  hops_seed: "hops S seed 0 seed"
| hops_link: "hops S seed k u \<Longrightarrow> fetch S u = Inr (Some html) \<Longrightarrow>
              extract_links S u html = Inr links \<Longrightarrow> v \<in> set links \<Longrightarrow>
              hops S seed (Suc k) v"

text \<open>The property of an item that the depth invariant is about.\<close>

definition within :: "site \<Rightarrow> string \<Rightarrow> int \<Rightarrow> item \<Rightarrow> bool" where
  "within S seed depth it = (\<exists>u k. i_url it = Some u \<and> int k \<le> depth \<and> hops S seed k u)"

text \<open>
  Bookkeeping of one crawl: no two results share a URL, and every result belongs to a
  visited URL.
\<close>

definition tidy :: "crawl_state \<Rightarrow> bool" where
  "tidy s = (distinct (map i_url (results s)) \<and>
             (\<forall>it\<in>set (results s). \<exists>u\<in>visited_urls s. i_url it = Some u))"

text \<open>
  A chain of five pages on one host, \<open>/0\<close> to \<open>/4\<close>, each linking to the next one: the
  body of page \<open>/n\<close> is the path of its successor.
\<close>

definition chain_host :: string where
  "chain_host = ''http://abcdefghijklmnop.onion''"

definition chain_site :: site where
  "chain_site =
     \<lparr> fetch = (\<lambda>url.
          if url = chain_host @ ''/0'' then Inr (Some ''/1'')
          else if url = chain_host @ ''/1'' then Inr (Some ''/2'')
          else if url = chain_host @ ''/2'' then Inr (Some ''/3'')
          else if url = chain_host @ ''/3'' then Inr (Some ''/4'')
          else if url = chain_host @ ''/4'' then Inr (Some ''/0'')
          else Inr None),
       parse_html = (\<lambda>html. \<lparr> soup_title = Some (Some ''page''), soup_text = html,
                        soup_anchors = 1, soup_hrefs = [html] \<rparr>),
       urljoin = (\<lambda>base href. Inr (chain_host @ href)),
       clock = ''2026-01-01 00:00:00'' \<rparr>"

section \<open>Text and bytes\<close>

text \<open>
  Where the code turns text into bytes, a Python \<open>str\<close> is the list of its code points
  and a \<open>bytes\<close> object the list of its bytes (numbers below 256). \<open>code_points\<close> reads
  a string of this theory as such a list.
\<close>

type_synonym bytes = "nat list"

definition code_points :: "string \<Rightarrow> nat list" where
  "code_points s = map ord s"

text \<open>
  \<open>str.encode()\<close>: UTF-8, strict. A surrogate code point raises \<open>UnicodeEncodeError\<close>.
\<close>

definition encode_cp :: "nat \<Rightarrow> exn + bytes" where
  "encode_cp cp =
     (if cp < 0x80 then Inr [cp]
      else if cp < 0x800 then Inr [0xC0 + cp div 64, 0x80 + cp mod 64]
      else if 0xD800 \<le> cp \<and> cp \<le> 0xDFFF then Inl UnicodeEncodeError
      else if cp < 0x10000 then
        Inr [0xE0 + cp div 4096, 0x80 + (cp div 64) mod 64, 0x80 + cp mod 64]
      else if cp < 0x110000 then
        Inr [0xF0 + cp div 262144, 0x80 + (cp div 4096) mod 64,
             0x80 + (cp div 64) mod 64, 0x80 + cp mod 64]
      else Inl UnicodeEncodeError)"

fun encode :: "nat list \<Rightarrow> exn + bytes" where
  "encode [] = Inr []"
| "encode (cp # cps) =
     (case encode_cp cp of
        Inl e \<Rightarrow> Inl e
      | Inr bs \<Rightarrow> (case encode cps of Inl e \<Rightarrow> Inl e | Inr rest \<Rightarrow> Inr (bs @ rest)))"

text \<open>
  \<open>bytes.decode()\<close>: UTF-8, strict. Overlong forms, surrogates, code points beyond
  U+10FFFF, stray continuation bytes and truncated sequences raise \<open>UnicodeDecodeError\<close>.
\<close>

definition continuation :: "nat \<Rightarrow> bool" where
  "continuation b = (0x80 \<le> b \<and> b < 0xC0)"

definition prepend :: "nat \<Rightarrow> exn + nat list \<Rightarrow> exn + nat list" where
  "prepend cp r = (case r of Inl e \<Rightarrow> Inl e | Inr cps \<Rightarrow> Inr (cp # cps))"

fun decode :: "bytes \<Rightarrow> exn + nat list" where
  "decode [] = Inr []"
| "decode (b0 # bs) =
     (if b0 < 0x80 then prepend b0 (decode bs)
      else if 0xC2 \<le> b0 \<and> b0 < 0xE0 then
        (case bs of
           b1 # r \<Rightarrow>
             if continuation b1 then prepend ((b0 - 0xC0) * 64 + (b1 - 0x80)) (decode r)
             else Inl UnicodeDecodeError
         | _ \<Rightarrow> Inl UnicodeDecodeError)
      else if 0xE0 \<le> b0 \<and> b0 < 0xF0 then
        (case bs of
           b1 # b2 # r \<Rightarrow>
             (let cp = (b0 - 0xE0) * 4096 + (b1 - 0x80) * 64 + (b2 - 0x80) in
              if continuation b1 \<and> continuation b2 \<and> 0x800 \<le> cp \<and> \<not> (0xD800 \<le> cp \<and> cp \<le> 0xDFFF)
              then prepend cp (decode r)
              else Inl UnicodeDecodeError)
         | _ \<Rightarrow> Inl UnicodeDecodeError)
      else if 0xF0 \<le> b0 \<and> b0 < 0xF5 then
        (case bs of
           b1 # b2 # b3 # r \<Rightarrow>
             (let cp = (b0 - 0xF0) * 262144 + (b1 - 0x80) * 4096 + (b2 - 0x80) * 64 + (b3 - 0x80) in
              if continuation b1 \<and> continuation b2 \<and> continuation b3 \<and>
                 0x10000 \<le> cp \<and> cp < 0x110000
              then prepend cp (decode r)
              else Inl UnicodeDecodeError)
         | _ \<Rightarrow> Inl UnicodeDecodeError)
      else Inl UnicodeDecodeError)"

text \<open>
  Text in the sense of the data model: every code point is a Unicode scalar value (below
  U+110000 and not a surrogate).
\<close>

definition scalar_value :: "nat \<Rightarrow> bool" where
  "scalar_value cp = (cp < 0x110000 \<and> \<not> (0xD800 \<le> cp \<and> cp \<le> 0xDFFF))"

definition is_text :: "nat list \<Rightarrow> bool" where
  "is_text s = list_all scalar_value s"

section \<open>Encryption at rest (data\_manager.py)\<close>

text \<open>
  The Fernet cipher of the \<open>cryptography\<close> package, for the key of this store.
  Encryption draws an initialisation vector and reads the clock: both are the first
  argument of \<open>cipher_encrypt\<close>. Decryption raises \<open>InvalidToken\<close> for what it cannot
  authenticate. \<open>fernet_contract\<close> is the guarantee of the package that the code relies
  on: a token decrypts to the bytes it was made from.
\<close>

record cipher =
  cipher_encrypt :: "nat \<Rightarrow> bytes \<Rightarrow> bytes"
  cipher_decrypt :: "bytes \<Rightarrow> exn + bytes"

definition fernet_contract :: "cipher \<Rightarrow> bool" where
  "fernet_contract C = (\<forall>iv b. cipher_decrypt C (cipher_encrypt C iv b) = Inr b)"

datatype pydata = Str "nat list" | Bytes bytes

text \<open>\<open>_encrypt_data\<close>: a \<open>str\<close> is encoded first, anything else is passed on as it is.\<close>

definition encrypt_data :: "cipher \<Rightarrow> nat \<Rightarrow> pydata \<Rightarrow> exn + bytes" where
  "encrypt_data C iv data =
     (case data of
        Str s \<Rightarrow> (case encode s of Inl e \<Rightarrow> Inl e | Inr b \<Rightarrow> Inr (cipher_encrypt C iv b))
      | Bytes b \<Rightarrow> Inr (cipher_encrypt C iv b))"

text \<open>\<open>_decrypt_data\<close>: decrypt, then decode.\<close>

definition decrypt_data :: "cipher \<Rightarrow> bytes \<Rightarrow> exn + nat list" where
  "decrypt_data C encrypted_data =
     (case cipher_decrypt C encrypted_data of Inl e \<Rightarrow> Inl e | Inr b \<Rightarrow> decode b)"

text \<open>
  A toy cipher for concrete inputs: it adds the initialisation vector in front and
  reverses the bytes; it refuses the empty token.
\<close>

definition toy_cipher :: cipher where
  "toy_cipher =
     \<lparr> cipher_encrypt = (\<lambda>iv b. iv # rev b),
       cipher_decrypt = (\<lambda>t. case t of [] \<Rightarrow> Inl InvalidToken | iv # r \<Rightarrow> Inr (rev r)) \<rparr>"

section \<open>Dedup store (data\_manager.py)\<close>

text \<open>
  The two tables of \<open>_init_db\<close>, rows in the order of their insertion. Timestamps are
  seconds of the database clock. \<open>url\<close> and \<open>source_hash\<close> are declared \<open>UNIQUE\<close>.
\<close>

record stored_record =
  r_id :: nat
  r_data_type :: string
  r_title :: string
  r_url :: string
  r_content :: "bytes option"
  r_timestamp :: nat
  r_source_hash :: string
  r_is_sensitive :: nat

record scan_metadata =
  m_id :: nat
  m_scan_start :: nat
  m_scan_end :: "nat option"
  m_items_collected :: nat
  m_domains_scanned :: string

record database =
  collected_data :: "stored_record list"
  scan_meta :: "scan_metadata list"

definition empty_db :: database where
  "empty_db = \<lparr> collected_data = [], scan_meta = [] \<rparr>"

text \<open>
  What the store computes with but does not define: SHA-256 as a hex digest, the JSON
  codec and the cipher.
\<close>

record store_env =
  sha256_hex :: "bytes \<Rightarrow> string"
  json_dumps :: "string \<Rightarrow> string"
  json_loads :: "nat list \<Rightarrow> exn + string"
  fernet :: cipher

text \<open>
  What one call of \<open>save\<close> reads from outside: \<open>datetime.now()\<close> at its start, and for
  the \<open>k\<close>-th item of the batch the randomness of the cipher and the database clock.
\<close>

record save_call =
  scan_clock :: nat
  entropy :: "nat \<Rightarrow> nat"
  db_clock :: "nat \<Rightarrow> nat"

text \<open>\<open>s.split(sep)\<close> for a separator of one character, and \<open>sep.join(xs)\<close>.\<close>

fun split_on :: "char \<Rightarrow> string \<Rightarrow> string list" where
  "split_on sep [] = [[]]"
| "split_on sep (c # cs) =
     (if c = sep then [] # split_on sep cs
      else (case split_on sep cs of [] \<Rightarrow> [[c]] | p # ps \<Rightarrow> (c # p) # ps))"

fun py_join :: "string \<Rightarrow> string list \<Rightarrow> string" where
  "py_join sep [] = []"
| "py_join sep [x] = x"
| "py_join sep (x # y # ys) = x @ sep @ py_join sep (y # ys)"

text \<open>
  \<open>hashlib.sha256((item.get('url', '') + str(item.get('content', ''))).encode()).hexdigest()\<close>
\<close>

definition content_hash :: "store_env \<Rightarrow> item \<Rightarrow> exn + string" where
  "content_hash E it =
     (case encode (code_points
             ((case i_url it of None \<Rightarrow> [] | Some u \<Rightarrow> u) @
              (case i_content it of None \<Rightarrow> [] | Some c \<Rightarrow> c))) of
        Inl e \<Rightarrow> Inl e
      | Inr b \<Rightarrow> Inr (sha256_hex E b))"

text \<open>
  \<open>self._encrypt_data(json.dumps(item.get('content', ''))) if item.get('content') else None\<close>
\<close>

definition encrypted_content :: "store_env \<Rightarrow> nat \<Rightarrow> item \<Rightarrow> exn + bytes option" where
  "encrypted_content E iv it =
     (case i_content it of
        None \<Rightarrow> Inr None
      | Some c \<Rightarrow>
          if c = [] then Inr None
          else (case encrypt_data (fernet E) iv (Str (code_points (json_dumps E c))) of
                  Inl e \<Rightarrow> Inl e
                | Inr token \<Rightarrow> Inr (Some token)))"

text \<open>\<open>item['url'].split('/')[2] if 'url' in item else 'unknown'\<close>\<close>

definition domain_of :: "item \<Rightarrow> exn + string" where
  "domain_of it =
     (case i_url it of
        None \<Rightarrow> Inr ''unknown''
      | Some u \<Rightarrow>
          (let parts = split_on (CHR ''/'') u
           in if 2 < length parts then Inr (parts ! 2) else Inl IndexError))"

text \<open>
  \<open>INSERT OR IGNORE\<close>: a row whose url or source\_hash is already in the table is
  dropped and \<open>cursor.rowcount\<close> is 0; otherwise the row is appended and it is 1.
\<close>

definition conflicts :: "stored_record list \<Rightarrow> string \<Rightarrow> string \<Rightarrow> bool" where
  "conflicts rows url h = list_ex (\<lambda>r. r_url r = url \<or> r_source_hash r = h) rows"

definition insert_or_ignore ::
  "database \<Rightarrow> nat \<Rightarrow> string \<Rightarrow> string \<Rightarrow> string \<Rightarrow> bytes option \<Rightarrow> string \<Rightarrow> database \<times> nat" where
  "insert_or_ignore db now data_type title url content h =
     (if conflicts (collected_data db) url h then (db, 0)
      else
        (db\<lparr> collected_data := collected_data db @
               [\<lparr> r_id = Suc (length (collected_data db)), r_data_type = data_type,
                  r_title = title, r_url = url, r_content = content, r_timestamp = now,
                  r_source_hash = h, r_is_sensitive = 0 \<rparr>] \<rparr>, 1))"

record save_state =
  st_db :: database
  st_domains :: "string list"
  st_saved :: nat

text \<open>\<open>domains.add(domain)\<close>: the set of domains as a duplicate-free list.\<close>

definition add_domain :: "string \<Rightarrow> string list \<Rightarrow> string list" where
  "add_domain d ds = (if d \<in> set ds then ds else ds @ [d])"

text \<open>
  The body of the loop of \<open>save\<close> for the \<open>k\<close>-th item. An exception at any step is
  caught, logged, and the loop goes on with the next item; what the body did before the
  exception stays done (the domain is added before \<open>item['url']\<close> can raise \<open>KeyError\<close>).
\<close>

definition save_item :: "store_env \<Rightarrow> save_call \<Rightarrow> nat \<Rightarrow> item \<Rightarrow> save_state \<Rightarrow> save_state" where
  "save_item E T k it st =
     (case content_hash E it of
        Inl e \<Rightarrow> st
      | Inr h \<Rightarrow>
          (case encrypted_content E (entropy T k) it of
             Inl e \<Rightarrow> st
           | Inr content \<Rightarrow>
               (case domain_of it of
                  Inl e \<Rightarrow> st
                | Inr domain \<Rightarrow>
                    (let st1 = st\<lparr> st_domains := add_domain domain (st_domains st) \<rparr>
                     in case i_url it of
                          None \<Rightarrow> st1
                        | Some url \<Rightarrow>
                            (let (db', rowcount) =
                                   insert_or_ignore (st_db st1) (db_clock T k)
                                     (case i_type it of None \<Rightarrow> ''unknown'' | Some t \<Rightarrow> t)
                                     (take 500 (case i_title it of None \<Rightarrow> ''No title'' | Some t \<Rightarrow> t))
                                     url content h
                             in st1\<lparr> st_db := db', st_saved := st_saved st1 + rowcount \<rparr>)))))"

fun save_items :: "store_env \<Rightarrow> save_call \<Rightarrow> nat \<Rightarrow> item list \<Rightarrow> save_state \<Rightarrow> save_state" where
  "save_items E T k [] st = st"
| "save_items E T k (it # items) st = save_items E T (Suc k) items (save_item E T k it st)"

text \<open>\<open>save\<close>: the returned flag and the database it leaves.\<close>

definition save :: "store_env \<Rightarrow> save_call \<Rightarrow> database \<Rightarrow> item list \<Rightarrow> bool \<times> database" where
  "save E T db items =
     (if items = [] then (False, db)
      else
        (let st = save_items E T 0 items \<lparr> st_db = db, st_domains = [], st_saved = 0 \<rparr>;
             db1 = st_db st;
             db2 = db1\<lparr> scan_meta := scan_meta db1 @
                     [\<lparr> m_id = Suc (length (scan_meta db1)), m_scan_start = scan_clock T,
                        m_scan_end = None, m_items_collected = st_saved st,
                        m_domains_scanned = py_join '','' (take 10 (st_domains st)) \<rparr>] \<rparr>
         in (0 < st_saved st, db2)))"

text \<open>A sequence of calls of \<open>save\<close>, each with its own clock and randomness.\<close>

fun save_all :: "store_env \<Rightarrow> database \<Rightarrow> (save_call \<times> item list) list \<Rightarrow> database" where
  "save_all E db [] = db"
| "save_all E db ((T, items) # calls) = save_all E (snd (save E T db items)) calls"









text \<open>The uniqueness constraints of \<open>collected_data\<close> as a property of a database.\<close>

definition unique_keys :: "database \<Rightarrow> bool" where
  "unique_keys db =
     (distinct (map r_url (collected_data db)) \<and> distinct (map r_source_hash (collected_data db)))"

text \<open>
  An environment for concrete inputs: the digest is the length of the input in decimal,
  a colon and the bytes of the input as characters (a stand-in that keeps different inputs
  apart), the JSON codec puts a string between quotes and takes it out again.
\<close>

definition toy_env :: store_env where
  "toy_env =
     \<lparr> sha256_hex = (\<lambda>b. str_nat (length b) @ '':'' @ map char_of b),
       json_dumps = (\<lambda>s. [CHR 0x22] @ s @ [CHR 0x22]),
       json_loads = (\<lambda>s. if 2 \<le> length s \<and> hd s = 0x22 \<and> last s = 0x22
                          then Inr (map char_of (butlast (tl s))) else Inl JSONDecodeError),
       fernet = toy_cipher \<rparr>"

definition call0 :: save_call where
  "call0 = \<lparr> scan_clock = 100, entropy = (\<lambda>k. k), db_clock = (\<lambda>k. 100 + k) \<rparr>"

definition page_a :: item where
  "page_a = \<lparr> i_type = Some ''page'', i_title = Some ''A'',
              i_url = Some ''http://abcdefghijklmnop.onion/a'', i_content = Some ''alpha'',
              i_timestamp = Some ''2026-01-01 00:00:00'', i_links = Some 0 \<rparr>"





section \<open>Wiping the store (data\_manager.py)\<close>

text \<open>
  The files of the store: a path has a content or does not exist. Every operation that
  changes a file is kept, in order, in a log. \<open>open(path, 'wb')\<close> creates the file or
  truncates it to length zero; the write that follows starts at offset zero.
\<close>

datatype fs_event = Truncate string | Write string bytes | Remove string

record filesystem =
  files :: "string \<Rightarrow> bytes option"
  fs_log :: "fs_event list"

definition path_exists :: "filesystem \<Rightarrow> string \<Rightarrow> bool" where
  "path_exists fs p = (files fs p \<noteq> None)"

definition open_wb :: "string \<Rightarrow> filesystem \<Rightarrow> filesystem" where
  "open_wb p fs = fs\<lparr> files := (files fs)(p := Some []), fs_log := fs_log fs @ [Truncate p] \<rparr>"

definition getsize :: "filesystem \<Rightarrow> string \<Rightarrow> exn + nat" where
  "getsize fs p = (case files fs p of None \<Rightarrow> Inl FileNotFoundError | Some b \<Rightarrow> Inr (length b))"

definition file_write :: "string \<Rightarrow> bytes \<Rightarrow> filesystem \<Rightarrow> filesystem" where
  "file_write p data fs =
     fs\<lparr> files := (files fs)(p := Some (case files fs p of
                                          None \<Rightarrow> data
                                        | Some old \<Rightarrow> data @ drop (length data) old)),
         fs_log := fs_log fs @ [Write p data] \<rparr>"

definition os_remove :: "string \<Rightarrow> filesystem \<Rightarrow> exn + filesystem" where
  "os_remove p fs =
     (if path_exists fs p
      then Inr (fs\<lparr> files := (files fs)(p := None), fs_log := fs_log fs @ [Remove p] \<rparr>)
      else Inl FileNotFoundError)"

text \<open>\<open>os.urandom(n)\<close>: \<open>n\<close> bytes of the random source \<open>rand\<close>.\<close>

definition urandom :: "(nat \<Rightarrow> nat) \<Rightarrow> nat \<Rightarrow> bytes" where
  "urandom rand n = map (\<lambda>i. rand i mod 256) [0 ..< n]"

definition db_name :: string where
  "db_name = ''darkweb_data.db''"

definition key_file :: string where
  "key_file = ''data_key.key''"

text \<open>
  \<open>wipe\<close>. The argument of \<open>f.write\<close> is evaluated inside the \<open>with\<close> block, that is
  after \<open>open(self.db_name, 'wb')\<close>: \<open>os.path.getsize\<close> reads the size of the file as
  the open has left it. An exception anywhere gives \<open>False\<close>.
\<close>

definition wipe_db :: "(nat \<Rightarrow> nat) \<Rightarrow> filesystem \<Rightarrow> exn \<times> filesystem + filesystem" where
  "wipe_db rand fs =
     (if path_exists fs db_name then
        (let fs1 = open_wb db_name fs in
         case getsize fs1 db_name of
           Inl e \<Rightarrow> Inl (e, fs1)
         | Inr n \<Rightarrow>
             (let fs2 = file_write db_name (urandom rand n) fs1 in
              case os_remove db_name fs2 of
                Inl e \<Rightarrow> Inl (e, fs2)
              | Inr fs3 \<Rightarrow> Inr fs3))
      else Inr fs)"

definition wipe :: "(nat \<Rightarrow> nat) \<Rightarrow> filesystem \<Rightarrow> bool \<times> filesystem" where
  "wipe rand fs =
     (case wipe_db rand fs of
        Inl (e, fs') \<Rightarrow> (False, fs')
      | Inr fs3 \<Rightarrow>
          if path_exists fs3 key_file then
            (case os_remove key_file fs3 of
               Inl e \<Rightarrow> (False, fs3)
             | Inr fs4 \<Rightarrow> (True, fs4))
          else (True, fs3))"

text \<open>A store file of three bytes and a key file of two, for concrete inputs.\<close>

definition disk0 :: filesystem where
  "disk0 =
     \<lparr> files = (\<lambda>p. if p = db_name then Some [83, 81, 76]
                     else if p = key_file then Some [1, 2] else None),
       fs_log = [] \<rparr>"

section \<open>Properties of search\<close>

lemma length_search: "length (search rnd now query m) = nat (min m 5)"
  by (simp add: search_def py_range_def)

lemma search_types:
  "it \<in> set (search rnd now query m) \<Longrightarrow> i_type it = Some ''search_result''"
  by (auto simp: search_def search_result_def)

text \<open>
  Claim C10. For every query and every requested bound \<open>max_results \<ge> 0\<close>, \<open>search\<close>
  returns exactly \<open>min max_results 5\<close> items, each of type \<open>search_result\<close>; a bound
  that went through the clamp of the CLI (10 to 100) therefore always gives 5 items.
\<close>

theorem search_count_and_type:
  assumes "0 \<le> max_results"
  shows "int (length (search rnd now query max_results)) = min max_results 5 \<and>
         (\<forall>it \<in> set (search rnd now query max_results). i_type it = Some ''search_result'') \<and>
         length (search rnd now query (clamp_max_results typed)) = 5"
proof (intro conjI)
  show "int (length (search rnd now query max_results)) = min max_results 5"
    using assms by (simp add: length_search)
  show "\<forall>it \<in> set (search rnd now query max_results). i_type it = Some ''search_result''"
    by (blast dest: search_types)
  show "length (search rnd now query (clamp_max_results typed)) = 5"
    by (cases typed) (simp_all add: length_search clamp_max_results_def)
qed

theorem search_count_and_type_witness:
  "(0::int) \<le> 3 \<and>
   length (search (\<lambda>i. 7) ''2026-01-01 00:00:00'' ''q'' 3) = 3 \<and>
   map i_type (search (\<lambda>i. 7) ''2026-01-01 00:00:00'' ''q'' 3) =
     [Some ''search_result'', Some ''search_result'', Some ''search_result''] \<and>
   length (search (\<lambda>i. 7) ''2026-01-01 00:00:00'' ''q'' (clamp_max_results (Some 50))) = 5"
proof -
  have h: "(0::int) \<le> 3" by simp
  note t = search_count_and_type [OF h, of "\<lambda>i. 7" "''2026-01-01 00:00:00''" "''q''" "Some 50"]
  have "length (search (\<lambda>i. 7) ''2026-01-01 00:00:00'' ''q'' 3) = 3"
    using t by simp
  moreover have "map i_type (search (\<lambda>i. 7) ''2026-01-01 00:00:00'' ''q'' 3) =
     [Some ''search_result'', Some ''search_result'', Some ''search_result'']"
    by (simp add: search_def py_range_def search_result_def upt_rec)
  ultimately show ?thesis using t by simp
qed

section \<open>Properties of link validation\<close>

lemmas url_defs =
  validate_onion_url_def urlparse_def split_scheme_def splitnetloc_def is_alpha_def ord_def
  scheme_char_def is_digit_def lower_def lower_char_def endswith_def
  is_blacklisted_def blacklist_def re_search_suffix_def

text \<open>
  Counterexample to claim C4 as stated: the host \<open>abcdefghijklmnopqrstu.onion\<close> has 27
  characters (21 letters and the 6 of \<open>.onion\<close>), not 22, so the validator rejects the URL
  that the claim says is accepted.
\<close>

theorem validate_rejects_27_char_host:
  "\<not> validate_onion_url ''http://abcdefghijklmnopqrstu.onion/x''"
  by (simp add: url_defs)

text \<open>
  Claim C4, amended. The validator rejects \<open>http://abcdefghijklmnopqrstu.onion/x\<close>, whose
  host has 27 characters; it accepts \<open>http://abcdefghijklmnop.onion/x\<close>, whose host has
  the 22 characters of a version 2 address (16 and \<open>.onion\<close>); it rejects
  \<open>http://short.onion/x\<close> and \<open>https://example.com/x\<close>; and the blacklist matches
  \<open>http://abcdefghijklmnopqrstu.onion/file.exe\<close>, as it matches a valid 22-character
  host followed by \<open>/file.exe\<close>.
\<close>

theorem link_validation_examples:
  "urlparse ''http://abcdefghijklmnopqrstu.onion/x'' =
     Inr \<lparr> scheme = ''http'', netloc = ''abcdefghijklmnopqrstu.onion'' \<rparr> \<and>
   length ''abcdefghijklmnopqrstu.onion'' = 27 \<and>
   validate_onion_url ''http://abcdefghijklmnopqrstu.onion/x'' = False \<and>
   validate_onion_url ''http://abcdefghijklmnop.onion/x'' = True \<and>
   validate_onion_url ''http://short.onion/x'' = False \<and>
   validate_onion_url ''https://example.com/x'' = False \<and>
   is_blacklisted ''http://abcdefghijklmnopqrstu.onion/file.exe'' = True \<and>
   validate_onion_url ''http://abcdefghijklmnop.onion/file.exe'' = True \<and>
   is_blacklisted ''http://abcdefghijklmnop.onion/file.exe'' = True"
  by (simp add: url_defs)

section \<open>Properties of the fetcher\<close>

lemma concat_retry_rounds:
  "concat (map (retry_round N url r) [0..<Suc k]) =
     retry_round N url r 0 @ concat (map (retry_round N url (r + 1)) [0..<k])"
proof -
  have "[0..<Suc k] = 0 # map Suc [0..<k]"
    by (simp add: upt_conv_Cons map_Suc_upt)
  moreover have "retry_round N url r \<circ> Suc = retry_round N url (r + 1)"
    by (rule ext) (simp add: retry_round_def)
  ultimately show ?thesis by (simp del: upt_Suc)
qed

lemma fetch_attempts_failures_then_response:
  assumes "\<forall>j<k. \<exists>e. transport N (requests w + j) url = Failure e"
    and "transport N (requests w + k) url = Response status text"
    and "attempt + k < budget"
  shows "fetch_attempts N budget url attempt w =
           (Inr (if status = 200 then Some text else None),
            \<lparr> requests = requests w + k + 1, renewals = renewals w + k,
              trace = trace w @ concat (map (retry_round N url (renewals w)) [0..<k]) @ [Delay, Get url] \<rparr>)"
  using assms
proof (induction k arbitrary: attempt w)
  case 0
  then show ?case
    by (simp add: fetch_attempts.simps[of N budget url attempt w] session_get_def emit_def)
next
  case (Suc k)
  from Suc.prems(1) obtain e where e: "transport N (requests w) url = Failure e"
    by force
  let ?w' = "snd (renew_identity N (emit Pause (snd (session_get N url (emit Delay w)))))"
  have rq: "requests ?w' = requests w + 1" and rn: "renewals ?w' = renewals w + 1"
    and tr: "trace ?w' = trace w @ retry_round N url (renewals w) 0"
    by (simp_all add: renew_identity_def session_get_def emit_def retry_round_def Let_def)
  have step: "fetch_attempts N budget url attempt w = fetch_attempts N budget url (attempt + 1) ?w'"
  proof -
    have "\<not> budget \<le> attempt" "attempt \<noteq> budget - 1" using Suc.prems(3) by simp_all
    then show ?thesis using e
      by (subst fetch_attempts.simps) (simp add: session_get_def emit_def)
  qed
  have "fetch_attempts N budget url (attempt + 1) ?w' =
           (Inr (if status = 200 then Some text else None),
            \<lparr> requests = requests ?w' + k + 1, renewals = renewals ?w' + k,
              trace = trace ?w' @ concat (map (retry_round N url (renewals ?w')) [0..<k]) @ [Delay, Get url] \<rparr>)"
  proof (rule Suc.IH)
    show "\<forall>j<k. \<exists>e. transport N (requests ?w' + j) url = Failure e"
      using Suc.prems(1) rq by (metis Suc_eq_plus1 add_Suc_shift not_less_eq)
    show "transport N (requests ?w' + k) url = Response status text"
      using Suc.prems(2) rq by simp
    show "attempt + 1 + k < budget" using Suc.prems(3) by simp
  qed
  moreover have "concat (map (retry_round N url (renewals w)) [0..<Suc k]) =
     retry_round N url (renewals w) 0 @ concat (map (retry_round N url (renewals w + 1)) [0..<k])"
    by (rule concat_retry_rounds)
  ultimately show ?case
    using step rq rn tr by simp
qed

lemma fetch_attempts_all_failures:
  assumes "\<forall>j\<le>k. transport N (requests w + j) url = Failure (err j)"
    and "attempt + k + 1 = budget"
  shows "fetch_attempts N budget url attempt w =
           (Inl (err k),
            \<lparr> requests = requests w + k + 1, renewals = renewals w + k,
              trace = trace w @ concat (map (retry_round N url (renewals w)) [0..<k]) @ [Delay, Get url] \<rparr>)"
  using assms
proof (induction k arbitrary: attempt w err)
  case 0
  then have "\<not> budget \<le> attempt" "attempt = budget - 1" "transport N (requests w) url = Failure (err 0)"
    by auto
  then show ?case
    by (subst fetch_attempts.simps) (simp add: session_get_def emit_def)
next
  case (Suc k)
  have e: "transport N (requests w) url = Failure (err 0)"
    using Suc.prems(1) by force
  let ?w' = "snd (renew_identity N (emit Pause (snd (session_get N url (emit Delay w)))))"
  have rq: "requests ?w' = requests w + 1" and rn: "renewals ?w' = renewals w + 1"
    and tr: "trace ?w' = trace w @ retry_round N url (renewals w) 0"
    by (simp_all add: renew_identity_def session_get_def emit_def retry_round_def Let_def)
  have step: "fetch_attempts N budget url attempt w = fetch_attempts N budget url (attempt + 1) ?w'"
  proof -
    have "\<not> budget \<le> attempt" "attempt \<noteq> budget - 1" using Suc.prems(2) by simp_all
    then show ?thesis using e
      by (subst fetch_attempts.simps) (simp add: session_get_def emit_def)
  qed
  have "fetch_attempts N budget url (attempt + 1) ?w' =
           (Inl ((err \<circ> Suc) k),
            \<lparr> requests = requests ?w' + k + 1, renewals = renewals ?w' + k,
              trace = trace ?w' @ concat (map (retry_round N url (renewals ?w')) [0..<k]) @ [Delay, Get url] \<rparr>)"
  proof (rule Suc.IH)
    show "\<forall>j\<le>k. transport N (requests ?w' + j) url = Failure ((err \<circ> Suc) j)"
    proof (intro allI impI)
      fix j assume "j \<le> k"
      then have "Suc j \<le> Suc k" by simp
      then have "transport N (requests w + Suc j) url = Failure (err (Suc j))"
        using Suc.prems(1) by blast
      then show "transport N (requests ?w' + j) url = Failure ((err \<circ> Suc) j)"
        using rq by simp
    qed
    show "attempt + 1 + k + 1 = budget" using Suc.prems(2) by simp
  qed
  moreover have "concat (map (retry_round N url (renewals w)) [0..<Suc k]) =
     retry_round N url (renewals w) 0 @ concat (map (retry_round N url (renewals w + 1)) [0..<k])"
    by (rule concat_retry_rounds)
  ultimately show ?case
    using step rq rn tr by simp
qed

text \<open>
  Counterexample to claim C2 as stated: a transport that answers every request with HTTP
  500. The fetcher gives up after the first request, with \<open>None\<close> and without a call of
  \<open>renew_identity\<close>, although two attempts of the budget of three are left.
\<close>

theorem fetch_status_500_not_retried:
  "fetch_url net500 ''http://abcdefghijklmnop.onion/'' world0 =
     (Inr None, \<lparr> requests = 1, renewals = 0,
                  trace = [Delay, Get ''http://abcdefghijklmnop.onion/''] \<rparr>) \<and>
   requests (snd (fetch_url net500 ''http://abcdefghijklmnop.onion/'' world0)) < max_retries"
  by (simp add: fetch_url_def max_retries_def fetch_attempts.simps session_get_def emit_def
      world0_def net500_def)

text \<open>
  Claim C2, amended. Only a network error (an exception of the request) is retried: when
  every attempt of the budget raises, the fetcher makes exactly \<open>budget\<close> requests, pauses
  and calls \<open>renew_identity\<close> after each failed attempt but the last, and then lets the
  last exception escape. An HTTP answer ends the fetch at once, whatever its status: the
  body for 200, \<open>None\<close> for every other status (403 and 404 as well as, say, 500), with no
  further request and no further rotation.
\<close>

theorem fetch_retry_policy:
  "(0 < budget \<and> (\<forall>j<budget. transport N (requests w + j) url = Failure (err j)) \<longrightarrow>
      fetch_attempts N budget url 0 w =
        (Inl (err (budget - 1)),
         \<lparr> requests = requests w + budget, renewals = renewals w + (budget - 1),
           trace = trace w @ concat (map (retry_round N url (renewals w)) [0..<budget - 1])
                   @ [Delay, Get url] \<rparr>)) \<and>
   (k < budget \<and> (\<forall>j<k. \<exists>e. transport N (requests w + j) url = Failure e) \<and>
    transport N (requests w + k) url = Response status text \<longrightarrow>
      fetch_attempts N budget url 0 w =
        (Inr (if status = 200 then Some text else None),
         \<lparr> requests = requests w + k + 1, renewals = renewals w + k,
           trace = trace w @ concat (map (retry_round N url (renewals w)) [0..<k])
                   @ [Delay, Get url] \<rparr>))"
proof (intro conjI impI)
  assume a: "0 < budget \<and> (\<forall>j<budget. transport N (requests w + j) url = Failure (err j))"
  then obtain b where b: "budget = Suc b" by (cases budget) auto
  have "\<forall>j\<le>b. transport N (requests w + j) url = Failure (err j)"
    using a b by simp
  moreover have "0 + b + 1 = budget" using b by simp
  ultimately have "fetch_attempts N budget url 0 w =
           (Inl (err b),
            \<lparr> requests = requests w + b + 1, renewals = renewals w + b,
              trace = trace w @ concat (map (retry_round N url (renewals w)) [0..<b]) @ [Delay, Get url] \<rparr>)"
    by (rule fetch_attempts_all_failures)
  then show "fetch_attempts N budget url 0 w =
        (Inl (err (budget - 1)),
         \<lparr> requests = requests w + budget, renewals = renewals w + (budget - 1),
           trace = trace w @ concat (map (retry_round N url (renewals w)) [0..<budget - 1])
                   @ [Delay, Get url] \<rparr>)"
    using b by simp
next
  assume a: "k < budget \<and> (\<forall>j<k. \<exists>e. transport N (requests w + j) url = Failure e) \<and>
    transport N (requests w + k) url = Response status text"
  then have "\<forall>j<k. \<exists>e. transport N (requests w + j) url = Failure e"
    and "transport N (requests w + k) url = Response status text"
    and "0 + k < budget" by simp_all
  then show "fetch_attempts N budget url 0 w =
        (Inr (if status = 200 then Some text else None),
         \<lparr> requests = requests w + k + 1, renewals = renewals w + k,
           trace = trace w @ concat (map (retry_round N url (renewals w)) [0..<k])
                   @ [Delay, Get url] \<rparr>)"
    by (rule fetch_attempts_failures_then_response)
qed

theorem fetch_retry_policy_witness:
  "fetch_url net_down ''http://abcdefghijklmnop.onion/'' world0 =
     (Inl (RequestException ''timed out 2''),
      \<lparr> requests = 3, renewals = 2,
        trace = [Delay, Get ''http://abcdefghijklmnop.onion/'', Pause, Renew True,
                 Delay, Get ''http://abcdefghijklmnop.onion/'', Pause, Renew True,
                 Delay, Get ''http://abcdefghijklmnop.onion/''] \<rparr>) \<and>
   fetch_url net_flaky ''http://abcdefghijklmnop.onion/'' world0 =
     (Inr (Some ''<html>ok</html>''),
      \<lparr> requests = 3, renewals = 2,
        trace = [Delay, Get ''http://abcdefghijklmnop.onion/'', Pause, Renew False,
                 Delay, Get ''http://abcdefghijklmnop.onion/'', Pause, Renew False,
                 Delay, Get ''http://abcdefghijklmnop.onion/''] \<rparr>)"
proof -
  have n: "[0..<2] = [0, Suc 0]" by (simp add: upt_rec)
  have s2: "str_nat 2 = ''2''" by code_simp
  have "fetch_attempts net_down 3 ''http://abcdefghijklmnop.onion/'' 0 world0 =
     (Inl (RequestException ''timed out 2''),
      \<lparr> requests = 3, renewals = 2,
        trace = [Delay, Get ''http://abcdefghijklmnop.onion/'', Pause, Renew True,
                 Delay, Get ''http://abcdefghijklmnop.onion/'', Pause, Renew True,
                 Delay, Get ''http://abcdefghijklmnop.onion/''] \<rparr>)"
    using fetch_retry_policy [of 3 net_down world0 "''http://abcdefghijklmnop.onion/''"
        "\<lambda>j. RequestException (''timed out '' @ str_nat j)" 0 0 "[]"]
    by (simp add: net_down_def world0_def retry_round_def n s2)
  moreover have "fetch_attempts net_flaky 3 ''http://abcdefghijklmnop.onion/'' 0 world0 =
     (Inr (Some ''<html>ok</html>''),
      \<lparr> requests = 3, renewals = 2,
        trace = [Delay, Get ''http://abcdefghijklmnop.onion/'', Pause, Renew False,
                 Delay, Get ''http://abcdefghijklmnop.onion/'', Pause, Renew False,
                 Delay, Get ''http://abcdefghijklmnop.onion/''] \<rparr>)"
    using fetch_retry_policy [of 3 net_flaky world0 "''http://abcdefghijklmnop.onion/''"
        "\<lambda>j. ValueError" 2 200 "''<html>ok</html>''"]
    by (simp add: net_flaky_def world0_def retry_round_def n)
  ultimately show ?thesis
    by (simp add: fetch_url_def max_retries_def)
qed

text \<open>
  Claim C3. With the budget of three attempts: when the transport raises on the first two
  requests and answers the third with status 200, the fetch returns the body of that
  answer and has called \<open>renew_identity\<close> exactly twice; when the transport answers 404,
  the fetch returns \<open>None\<close> after a single request and never calls \<open>renew_identity\<close>.
\<close>

theorem fetch_fails_twice_then_succeeds:
  "(transport N (requests w) url = Failure e0 \<and>
    transport N (requests w + 1) url = Failure e1 \<and>
    transport N (requests w + 2) url = Response 200 body \<longrightarrow>
      fst (fetch_url N url w) = Inr (Some body) \<and>
      renewals (snd (fetch_url N url w)) = renewals w + 2 \<and>
      requests (snd (fetch_url N url w)) = requests w + 3) \<and>
   (transport N' (requests w) url = Response 404 body' \<longrightarrow>
      fst (fetch_url N' url w) = Inr None \<and>
      renewals (snd (fetch_url N' url w)) = renewals w \<and>
      requests (snd (fetch_url N' url w)) = requests w + 1)"
proof (intro conjI impI)
  assume a: "transport N (requests w) url = Failure e0 \<and>
    transport N (requests w + 1) url = Failure e1 \<and>
    transport N (requests w + 2) url = Response 200 body"
  have "\<forall>j<2. \<exists>e. transport N (requests w + j) url = Failure e"
  proof (intro allI impI)
    fix j :: nat assume "j < 2"
    then have "j = 0 \<or> j = 1" by auto
    then show "\<exists>e. transport N (requests w + j) url = Failure e" using a by auto
  qed
  moreover have "transport N (requests w + 2) url = Response 200 body" using a by simp
  moreover have "0 + 2 < max_retries" by (simp add: max_retries_def)
  ultimately have r: "fetch_attempts N max_retries url 0 w =
           (Inr (if (200::nat) = 200 then Some body else None),
            \<lparr> requests = requests w + 2 + 1, renewals = renewals w + 2,
              trace = trace w @ concat (map (retry_round N url (renewals w)) [0..<2]) @ [Delay, Get url] \<rparr>)"
    by (rule fetch_attempts_failures_then_response)
  show "fst (fetch_url N url w) = Inr (Some body)" using r by (simp add: fetch_url_def)
  show "renewals (snd (fetch_url N url w)) = renewals w + 2" using r by (simp add: fetch_url_def)
  show "requests (snd (fetch_url N url w)) = requests w + 3" using r by (simp add: fetch_url_def)
next
  assume a: "transport N' (requests w) url = Response 404 body'"
  have "\<forall>j<(0::nat). \<exists>e. transport N' (requests w + j) url = Failure e" by simp
  moreover have "transport N' (requests w + 0) url = Response 404 body'" using a by simp
  moreover have "0 + 0 < max_retries" by (simp add: max_retries_def)
  ultimately have r: "fetch_attempts N' max_retries url 0 w =
           (Inr (if (404::nat) = 200 then Some body' else None),
            \<lparr> requests = requests w + 0 + 1, renewals = renewals w + 0,
              trace = trace w @ concat (map (retry_round N' url (renewals w)) [0..<0]) @ [Delay, Get url] \<rparr>)"
    by (rule fetch_attempts_failures_then_response)
  show "fst (fetch_url N' url w) = Inr None" using r by (simp add: fetch_url_def)
  show "renewals (snd (fetch_url N' url w)) = renewals w" using r by (simp add: fetch_url_def)
  show "requests (snd (fetch_url N' url w)) = requests w + 1" using r by (simp add: fetch_url_def)
qed

theorem fetch_fails_twice_then_succeeds_witness:
  "fst (fetch_url net_flaky ''http://abcdefghijklmnop.onion/'' world0) = Inr (Some ''<html>ok</html>'') \<and>
   renewals (snd (fetch_url net_flaky ''http://abcdefghijklmnop.onion/'' world0)) = 2 \<and>
   fst (fetch_url net404 ''http://abcdefghijklmnop.onion/'' world0) = Inr None \<and>
   renewals (snd (fetch_url net404 ''http://abcdefghijklmnop.onion/'' world0)) = 0"
  using fetch_fails_twice_then_succeeds [of net_flaky world0 "''http://abcdefghijklmnop.onion/''"
      "RequestException ''timed out''" "RequestException ''timed out''" "''<html>ok</html>''"
      net404 "''Not Found''"]
  by (simp add: net_flaky_def net404_def world0_def)

section \<open>Properties of the crawl engine\<close>

lemma crawl_skip:
  "int cur > depth \<or> url \<in> visited_urls s \<Longrightarrow> crawl S depth url cur s = s"
  by (subst crawl.simps) simp

lemma extract_page_data_url:
  "extract_page_data S url html = Inr pd \<Longrightarrow> i_url pd = Some url"
  by (auto simp: extract_page_data_def Let_def split: option.splits)

lemma crawl_within:
  "hops S seed cur url \<Longrightarrow> \<forall>it\<in>set (results s). within S seed depth it \<Longrightarrow>
     \<forall>it\<in>set (results (crawl S depth url cur s)). within S seed depth it"
  "\<forall>l\<in>set ls. hops S seed cur' l \<Longrightarrow> \<forall>it\<in>set (results s'). within S seed depth it \<Longrightarrow>
     \<forall>it\<in>set (results (crawl_links S depth ls cur' s')). within S seed depth it"
proof (induction S depth url cur s and S depth ls cur' s' rule: crawl_crawl_links.induct)
  case (1 S depth url cur s)
  show ?case
  proof (cases "int cur > depth \<or> url \<in> visited_urls s")
    case True
    then show ?thesis using "1.prems"(2) by (simp add: crawl_skip)
  next
    case False
    let ?s1 = "s\<lparr> visited_urls := insert url (visited_urls s) \<rparr>"
    show ?thesis
    proof (cases "fetch S url")
      case (Inl e)
      then show ?thesis using False "1.prems"(2) by (subst crawl.simps) simp
    next
      case (Inr r)
      show ?thesis
      proof (cases r)
        case None
        then show ?thesis using False Inr "1.prems"(2) by (subst crawl.simps) simp
      next
        case (Some html)
        show ?thesis
        proof (cases "html = []")
          case True
          then show ?thesis using False Inr Some "1.prems"(2) by (subst crawl.simps) simp
        next
          case nonempty: False
          show ?thesis
          proof (cases "extract_page_data S url html")
            case (Inl e)
            then show ?thesis using False Inr Some nonempty "1.prems"(2)
              by (subst crawl.simps) simp
          next
            case pd: (Inr page_data)
            let ?s2 = "?s1\<lparr> results := results ?s1 @ [page_data] \<rparr>"
            have cur: "int cur \<le> depth" using False by simp
            have "within S seed depth page_data"
              unfolding within_def using extract_page_data_url[OF pd] cur "1.prems"(1) by blast
            then have s2: "\<forall>it\<in>set (results ?s2). within S seed depth it"
              using "1.prems"(2) by simp
            show ?thesis
            proof (cases "int cur < depth")
              case True
              show ?thesis
              proof (cases "extract_links S url html")
                case (Inl e)
                then show ?thesis using False Inr Some nonempty pd True s2
                  by (subst crawl.simps) (simp add: Let_def)
              next
                case ls: (Inr links)
                have links: "\<forall>l\<in>set links. hops S seed (cur + 1) l"
                  using "1.prems"(1) Inr Some ls by (auto intro: hops_link)
                have "\<forall>it\<in>set (results (crawl_links S depth links (cur + 1) ?s2)).
                        within S seed depth it"
                  using "1.IH"[OF False refl Inr Some nonempty pd refl True ls links s2] .
                then show ?thesis using False Inr Some nonempty pd True ls
                  by (subst crawl.simps) (simp add: Let_def)
              qed
            next
              case notless: False
              then show ?thesis using False Inr Some nonempty pd s2
                by (subst crawl.simps) (simp add: Let_def)
            qed
          qed
        qed
      qed
    qed
  qed
next
  case (2 S depth d s)
  then show ?case by simp
next
  case (3 S depth link links d s)
  have "\<forall>it\<in>set (results (crawl S depth link d s)). within S seed depth it"
    using "3.IH"(1) "3.prems" by simp
  then show ?case using "3.IH"(2) "3.prems"(1) by simp
qed

lemma crawl_leaf:
  "\<not> int cur < depth \<Longrightarrow>
     visited_urls (crawl S depth url cur s) \<subseteq> insert url (visited_urls s) \<and>
     length (results (crawl S depth url cur s)) \<le> length (results s) + 1"
  by (auto simp: crawl.simps[of S depth url cur s] Let_def split: sum.splits option.splits)

lemma tidy_visit: "tidy s \<Longrightarrow> tidy (s\<lparr> visited_urls := insert url (visited_urls s) \<rparr>)"
  by (auto simp: tidy_def)

lemma tidy_append:
  assumes "tidy s" "url \<notin> visited_urls s" "i_url pd = Some url"
  shows "tidy (s\<lparr> visited_urls := insert url (visited_urls s),
                  results := results s @ [pd] \<rparr>)"
proof -
  have "Some url \<notin> set (map i_url (results s))"
    using assms(1,2) by (auto simp: tidy_def)
  then show ?thesis using assms by (auto simp: tidy_def)
qed

lemma crawl_tidy:
  "tidy s \<Longrightarrow> tidy (crawl S depth url cur s)"
  "tidy s' \<Longrightarrow> tidy (crawl_links S depth ls cur' s')"
proof (induction S depth url cur s and S depth ls cur' s' rule: crawl_crawl_links.induct)
  case (1 S depth url cur s)
  show ?case
  proof (cases "int cur > depth \<or> url \<in> visited_urls s")
    case True
    then show ?thesis using "1.prems" by (simp add: crawl_skip)
  next
    case False
    let ?s1 = "s\<lparr> visited_urls := insert url (visited_urls s) \<rparr>"
    have s1: "tidy ?s1" using "1.prems" by (rule tidy_visit)
    show ?thesis
    proof (cases "fetch S url")
      case (Inl e)
      then show ?thesis using False s1 by (subst crawl.simps) simp
    next
      case (Inr r)
      show ?thesis
      proof (cases r)
        case None
        then show ?thesis using False Inr s1 by (subst crawl.simps) simp
      next
        case (Some html)
        show ?thesis
        proof (cases "html = []")
          case True
          then show ?thesis using False Inr Some s1 by (subst crawl.simps) simp
        next
          case nonempty: False
          show ?thesis
          proof (cases "extract_page_data S url html")
            case (Inl e)
            then show ?thesis using False Inr Some nonempty s1
              by (subst crawl.simps) simp
          next
            case pd: (Inr page_data)
            let ?s2 = "?s1\<lparr> results := results ?s1 @ [page_data] \<rparr>"
            have "tidy (s\<lparr> visited_urls := insert url (visited_urls s),
                  results := results s @ [page_data] \<rparr>)"
              using "1.prems" False extract_page_data_url[OF pd] by (intro tidy_append) simp_all
            then have s2: "tidy ?s2" by simp
            show ?thesis
            proof (cases "int cur < depth")
              case True
              show ?thesis
              proof (cases "extract_links S url html")
                case (Inl e)
                then show ?thesis using False Inr Some nonempty pd True s2
                  by (subst crawl.simps) (simp add: Let_def)
              next
                case ls: (Inr links)
                have "tidy (crawl_links S depth links (cur + 1) ?s2)"
                  using "1.IH"[OF False refl Inr Some nonempty pd refl True ls s2] .
                then show ?thesis using False Inr Some nonempty pd True ls
                  by (subst crawl.simps) (simp add: Let_def)
              qed
            next
              case notless: False
              then show ?thesis using False Inr Some nonempty pd s2
                by (subst crawl.simps) (simp add: Let_def)
            qed
          qed
        qed
      qed
    qed
  qed
next
  case (2 S depth d s)
  then show ?case by simp
next
  case (3 S depth link links d s)
  then show ?case by simp
qed

lemma chain_valid: "validate_onion_url (chain_host @ ''/0'')"
  by (simp add: chain_host_def url_defs)

lemma chain_scrape:
  "map i_url (results (crawl chain_site 2 (chain_host @ ''/0'') 0 \<lparr> visited_urls = {}, results = [] \<rparr>)) =
     [Some (chain_host @ ''/0''), Some (chain_host @ ''/1''), Some (chain_host @ ''/2'')]"
  by (simp add: crawl.simps chain_site_def extract_page_data_def extract_links_def
      followable_def startswith_def strip_def is_space_def chain_host_def url_defs)

text \<open>
  Claim C5. Every item that \<open>scrape\<close> returns for a seed and a depth \<open>d\<close> carries the URL
  of a page that is reached from the seed by at most \<open>d\<close> link hops, and no URL
  yields two items. A call of \<open>_crawl\<close> for a URL that is in the visited set, or at a
  depth beyond \<open>d\<close>, changes nothing; a call at a depth that is not below \<open>d\<close> visits
  the URL itself and nothing else, so links are followed only from pages at a depth
  strictly less than \<open>d\<close>.
\<close>

theorem scrape_depth_invariant:
  "(scrape S seed depth = Inr items \<longrightarrow>
      (\<forall>it\<in>set items. \<exists>u k. i_url it = Some u \<and> int k \<le> depth \<and> hops S seed k u) \<and>
      distinct (map i_url items)) \<and>
   (int cur > depth \<or> url \<in> visited_urls s \<longrightarrow> crawl S depth url cur s = s) \<and>
   (\<not> int cur < depth \<longrightarrow>
      visited_urls (crawl S depth url cur s) \<subseteq> insert url (visited_urls s) \<and>
      length (results (crawl S depth url cur s)) \<le> length (results s) + 1)"
proof (intro conjI impI)
  let ?s0 = "\<lparr> visited_urls = {}, results = [] \<rparr>"
  assume a: "scrape S seed depth = Inr items"
  then have items: "items = results (crawl S depth seed 0 ?s0)"
    by (simp add: scrape_def split: if_splits)
  have "\<forall>it\<in>set (results (crawl S depth seed 0 ?s0)). within S seed depth it"
    by (rule crawl_within(1)) (simp_all add: hops_seed)
  then show "\<forall>it\<in>set items. \<exists>u k. i_url it = Some u \<and> int k \<le> depth \<and> hops S seed k u"
    using items by (simp add: within_def)
  have "tidy (crawl S depth seed 0 ?s0)"
    by (rule crawl_tidy(1)) (simp add: tidy_def)
  then show "distinct (map i_url items)"
    using items by (simp add: tidy_def)
next
  assume "int cur > depth \<or> url \<in> visited_urls s"
  then show "crawl S depth url cur s = s" by (rule crawl_skip)
next
  assume a: "\<not> int cur < depth"
  show "visited_urls (crawl S depth url cur s) \<subseteq> insert url (visited_urls s)"
    using crawl_leaf[OF a] by simp
  show "length (results (crawl S depth url cur s)) \<le> length (results s) + 1"
    using crawl_leaf[OF a] by simp
qed

theorem scrape_depth_invariant_witness:
  "(\<exists>items. scrape chain_site (chain_host @ ''/0'') 2 = Inr items \<and>
      map i_url items =
        [Some (chain_host @ ''/0''), Some (chain_host @ ''/1''), Some (chain_host @ ''/2'')] \<and>
      distinct (map i_url items)) \<and>
   (\<exists>k. int k \<le> 2 \<and> hops chain_site (chain_host @ ''/0'') k (chain_host @ ''/2'')) \<and>
   crawl chain_site 2 (chain_host @ ''/3'') 3 \<lparr> visited_urls = {}, results = [] \<rparr> =
     \<lparr> visited_urls = {}, results = [] \<rparr> \<and>
   visited_urls (crawl chain_site 2 (chain_host @ ''/2'') 2 \<lparr> visited_urls = {}, results = [] \<rparr>)
     \<subseteq> {chain_host @ ''/2''}"
proof -
  let ?s0 = "\<lparr> visited_urls = {}, results = [] \<rparr>"
  let ?items = "results (crawl chain_site 2 (chain_host @ ''/0'') 0 ?s0)"
  have sc: "scrape chain_site (chain_host @ ''/0'') 2 = Inr ?items"
    by (simp add: scrape_def chain_valid)
  have urls: "map i_url ?items =
        [Some (chain_host @ ''/0''), Some (chain_host @ ''/1''), Some (chain_host @ ''/2'')]"
    by (rule chain_scrape)
  note t = scrape_depth_invariant [of chain_site "chain_host @ ''/0''" 2 ?items 3
      "chain_host @ ''/3''" ?s0]
  note t2 = scrape_depth_invariant [of chain_site "chain_host @ ''/0''" 2 ?items 2
      "chain_host @ ''/2''" ?s0]
  obtain a b c where abc: "?items = [a, b, c]" and c: "i_url c = Some (chain_host @ ''/2'')"
    using urls by (auto simp: map_eq_Cons_conv)
  have "\<forall>it\<in>set ?items. \<exists>u k. i_url it = Some u \<and> int k \<le> 2 \<and> hops chain_site (chain_host @ ''/0'') k u"
    using t sc by blast
  then have "\<exists>u k. i_url c = Some u \<and> int k \<le> 2 \<and> hops chain_site (chain_host @ ''/0'') k u"
    using abc by simp
  then have h: "\<exists>k. int k \<le> 2 \<and> hops chain_site (chain_host @ ''/0'') k (chain_host @ ''/2'')"
    using c by auto
  have d: "distinct (map i_url ?items)" using t sc by blast
  have sk: "crawl chain_site 2 (chain_host @ ''/3'') 3 ?s0 = ?s0" using t by simp
  have lf: "visited_urls (crawl chain_site 2 (chain_host @ ''/2'') 2 ?s0) \<subseteq> {chain_host @ ''/2''}"
    using t2 by simp
  have ex: "\<exists>items. scrape chain_site (chain_host @ ''/0'') 2 = Inr items \<and>
      map i_url items =
        [Some (chain_host @ ''/0''), Some (chain_host @ ''/1''), Some (chain_host @ ''/2'')] \<and>
      distinct (map i_url items)"
    using sc urls d by (intro exI[of _ ?items] conjI)
  show ?thesis using ex h sk lf by (intro conjI)
qed

section \<open>Properties of the text codec and of encryption\<close>

lemma decode_2_gen:
  assumes "2 \<le> q" "q < 32" "l < 64"
  shows "decode ((0xC0 + q) # (0x80 + l) # rest) = prepend (q * 64 + l) (decode rest)"
  using assms by (simp add: continuation_def)

lemma decode_3_gen:
  assumes "q < 16" "m < 64" "l < 64" "cp = q * 4096 + m * 64 + l"
    "0x800 \<le> cp" "\<not> (0xD800 \<le> cp \<and> cp \<le> 0xDFFF)"
  shows "decode ((0xE0 + q) # (0x80 + m) # (0x80 + l) # rest) = prepend cp (decode rest)"
  using assms by (simp add: continuation_def Let_def)

lemma decode_4_gen:
  assumes "q < 5" "n < 64" "m < 64" "l < 64" "cp = q * 262144 + n * 4096 + m * 64 + l"
    "0x10000 \<le> cp" "cp < 0x110000"
  shows "decode ((0xF0 + q) # (0x80 + n) # (0x80 + m) # (0x80 + l) # rest) = prepend cp (decode rest)"
  using assms by (simp add: continuation_def Let_def)

lemma scale64:
  fixes a :: nat
  shows "a div 64 * (64 * k) + a mod 64 * k = a * k"
proof -
  have "(a div 64 * 64 + a mod 64) * k = a * k" by simp
  then show ?thesis by (simp only: add_mult_distrib mult.assoc)
qed

lemma split4096: "(cp::nat) div 4096 * 4096 + (cp div 64) mod 64 * 64 + cp mod 64 = cp"
proof -
  have "cp div 4096 = cp div 64 div 64" by (simp add: div_mult2_eq)
  moreover have "cp div 64 div 64 * (64 * 64) + (cp div 64) mod 64 * 64 = cp div 64 * 64"
    by (rule scale64)
  ultimately have "cp div 4096 * 4096 + (cp div 64) mod 64 * 64 = cp div 64 * 64" by simp
  then show ?thesis by simp
qed

lemma split262144:
  "(cp::nat) div 262144 * 262144 + (cp div 4096) mod 64 * 4096 + (cp div 64) mod 64 * 64 + cp mod 64 = cp"
proof -
  have "cp div 262144 = cp div 4096 div 64" by (simp add: div_mult2_eq)
  moreover have "cp div 4096 div 64 * (64 * 4096) + (cp div 4096) mod 64 * 4096 = cp div 4096 * 4096"
    by (rule scale64)
  ultimately have "cp div 262144 * 262144 + (cp div 4096) mod 64 * 4096 = cp div 4096 * 4096" by simp
  then show ?thesis using split4096[of cp] by simp
qed

lemma decode_encode_cp:
  assumes "encode_cp cp = Inr e"
  shows "decode (e @ rest) = prepend cp (decode rest)"
proof -
  consider (one) "cp < 0x80" | (two) "0x80 \<le> cp" "cp < 0x800"
    | (three) "0x800 \<le> cp" "cp < 0x10000" "\<not> (0xD800 \<le> cp \<and> cp \<le> 0xDFFF)"
    | (four) "0x10000 \<le> cp" "cp < 0x110000"
    | (bad) "(0xD800 \<le> cp \<and> cp \<le> 0xDFFF) \<or> 0x110000 \<le> cp"
    by linarith
  then show ?thesis
  proof cases
    case one
    then have "e = [cp]" using assms by (simp add: encode_cp_def)
    then show ?thesis using one by simp
  next
    case two
    then have e: "e = [0xC0 + cp div 64, 0x80 + cp mod 64]"
      using assms by (simp add: encode_cp_def)
    have "2 \<le> cp div 64" "cp div 64 < 32" "cp mod 64 < 64" using two by simp_all
    then have "decode ((0xC0 + cp div 64) # (0x80 + cp mod 64) # rest) =
        prepend (cp div 64 * 64 + cp mod 64) (decode rest)"
      by (rule decode_2_gen)
    then show ?thesis using e by (simp del: decode.simps)
  next
    case three
    then have e: "e = [0xE0 + cp div 4096, 0x80 + (cp div 64) mod 64, 0x80 + cp mod 64]"
      using assms by (auto simp: encode_cp_def split: if_splits)
    have d: "cp div 4096 < 16" "(cp div 64) mod 64 < 64" "cp mod 64 < 64" using three by simp_all
    have c: "cp = cp div 4096 * 4096 + (cp div 64) mod 64 * 64 + cp mod 64"
      by (rule split4096[symmetric])
    have "decode ((0xE0 + cp div 4096) # (0x80 + (cp div 64) mod 64) # (0x80 + cp mod 64) # rest) =
        prepend cp (decode rest)"
      by (rule decode_3_gen[OF d c three(1) three(3)])
    then show ?thesis using e by (simp del: decode.simps)
  next
    case four
    then have e: "e = [0xF0 + cp div 262144, 0x80 + (cp div 4096) mod 64,
                       0x80 + (cp div 64) mod 64, 0x80 + cp mod 64]"
      using assms by (auto simp: encode_cp_def split: if_splits)
    have d: "cp div 262144 < 5" "(cp div 4096) mod 64 < 64" "(cp div 64) mod 64 < 64" "cp mod 64 < 64"
      using four by simp_all
    have c: "cp = cp div 262144 * 262144 + (cp div 4096) mod 64 * 4096 + (cp div 64) mod 64 * 64 + cp mod 64"
      by (rule split262144[symmetric])
    have "decode ((0xF0 + cp div 262144) # (0x80 + (cp div 4096) mod 64) #
          (0x80 + (cp div 64) mod 64) # (0x80 + cp mod 64) # rest) = prepend cp (decode rest)"
      by (rule decode_4_gen[OF d c four])
    then show ?thesis using e by (simp del: decode.simps)
  next
    case bad
    then have "encode_cp cp = Inl UnicodeEncodeError" by (auto simp: encode_cp_def)
    then show ?thesis using assms by simp
  qed
qed

lemma decode_encode: "encode s = Inr b \<Longrightarrow> decode b = Inr s"
proof (induction s arbitrary: b)
  case Nil
  then show ?case by simp
next
  case (Cons cp cps)
  then obtain e r where e: "encode_cp cp = Inr e" and r: "encode cps = Inr r" and b: "b = e @ r"
    by (auto split: sum.splits)
  have "decode r = Inr cps" using Cons.IH r by simp
  then show ?case using decode_encode_cp[OF e, of r] b by (simp add: prepend_def)
qed

lemma encode_cp_scalar: "scalar_value cp \<Longrightarrow> \<exists>e. encode_cp cp = Inr e"
  by (simp add: scalar_value_def encode_cp_def)

lemma encode_text: "is_text s \<Longrightarrow> \<exists>b. encode s = Inr b"
proof (induction s)
  case Nil
  then show ?case by simp
next
  case (Cons cp cps)
  then obtain e r where "encode_cp cp = Inr e" "encode cps = Inr r"
    using encode_cp_scalar[of cp] by (auto simp: is_text_def)
  then show ?case by simp
qed

lemma toy_cipher_contract: "fernet_contract toy_cipher"
  by (simp add: fernet_contract_def toy_cipher_def)

text \<open>
  Claim C8. For every content string \<open>x\<close> (text: a sequence of Unicode scalar values of
  any length, the empty one included) and every initialisation vector, \<open>_encrypt_data\<close>
  yields a token and \<open>_decrypt_data\<close> of that token is \<open>x\<close>, given the guarantee of the
  Fernet cipher for the key in use.
\<close>

theorem encrypt_decrypt_round_trip:
  assumes "fernet_contract C" and "is_text x"
  shows "\<exists>token. encrypt_data C iv (Str x) = Inr token \<and> decrypt_data C token = Inr x"
proof -
  obtain b where b: "encode x = Inr b" using encode_text[OF assms(2)] by blast
  have "encrypt_data C iv (Str x) = Inr (cipher_encrypt C iv b)"
    using b by (simp add: encrypt_data_def)
  moreover have "decrypt_data C (cipher_encrypt C iv b) = Inr x"
    using assms(1) decode_encode[OF b] by (simp add: decrypt_data_def fernet_contract_def)
  ultimately show ?thesis by blast
qed

theorem encrypt_decrypt_round_trip_witness:
  "fernet_contract toy_cipher \<and>
   is_text [104, 233, 8364, 128512] \<and>
   (\<exists>token. encrypt_data toy_cipher 7 (Str [104, 233, 8364, 128512]) = Inr token \<and>
            decrypt_data toy_cipher token = Inr [104, 233, 8364, 128512]) \<and>
   (\<exists>token. encrypt_data toy_cipher 7 (Str []) = Inr token \<and>
            decrypt_data toy_cipher token = Inr []) \<and>
   (\<exists>token. encrypt_data toy_cipher 7 (Str (replicate 5000 8364)) = Inr token \<and>
            decrypt_data toy_cipher token = Inr (replicate 5000 8364))"
proof -
  have t1: "is_text [104, 233, 8364, 128512]" by (simp add: is_text_def scalar_value_def)
  have t2: "is_text []" by (simp add: is_text_def)
  have t3: "is_text (replicate 5000 8364)"
    by (simp add: is_text_def scalar_value_def list_all_iff)
  show ?thesis
    using toy_cipher_contract t1
      encrypt_decrypt_round_trip [OF toy_cipher_contract t1, of 7]
      encrypt_decrypt_round_trip [OF toy_cipher_contract t2, of 7]
      encrypt_decrypt_round_trip [OF toy_cipher_contract t3, of 7]
    by (intro conjI)
qed

section \<open>Properties of the dedup store\<close>

lemma ord_less_256: "ord c < 256"
proof -
  have "ord c mod 256 = ord c" unfolding ord_def by (rule of_char_mod_256)
  then show ?thesis by (metis mod_less_divisor zero_less_numeral)
qed

lemma is_text_code_points: "is_text (code_points s)"
proof -
  have "scalar_value (ord c)" for c
    using ord_less_256[of c] by (simp add: scalar_value_def)
  then show ?thesis by (simp add: is_text_def code_points_def list_all_iff)
qed

lemma content_hash_total: "\<exists>h. content_hash E it = Inr h"
proof -
  obtain b where "encode (code_points
             ((case i_url it of None \<Rightarrow> [] | Some u \<Rightarrow> u) @
              (case i_content it of None \<Rightarrow> [] | Some c \<Rightarrow> c))) = Inr b"
    using encode_text[OF is_text_code_points] by blast
  then show ?thesis by (simp add: content_hash_def)
qed

lemma encrypted_content_total: "\<exists>c. encrypted_content E iv it = Inr c"
proof (cases "i_content it")
  case None
  then show ?thesis by (simp add: encrypted_content_def)
next
  case (Some c)
  obtain b where "encode (code_points (json_dumps E c)) = Inr b"
    using encode_text[OF is_text_code_points] by blast
  then show ?thesis using Some by (simp add: encrypted_content_def encrypt_data_def)
qed

lemma conflicts_iff:
  "conflicts rows url h \<longleftrightarrow> url \<in> set (map r_url rows) \<or> h \<in> set (map r_source_hash rows)"
  by (auto simp: conflicts_def list_ex_iff)

lemmas save_item_splits = sum.splits option.splits prod.splits if_splits

lemma save_item_unique: "unique_keys (st_db st) \<Longrightarrow> unique_keys (st_db (save_item E T k it st))"
  unfolding save_item_def
  by (auto simp: Let_def insert_or_ignore_def unique_keys_def conflicts_iff split: save_item_splits)

lemma save_items_unique:
  "unique_keys (st_db st) \<Longrightarrow> unique_keys (st_db (save_items E T k items st))"
  by (induction items arbitrary: k st) (simp_all add: save_item_unique)

lemma save_unique: "unique_keys db \<Longrightarrow> unique_keys (snd (save E T db items))"
  using save_items_unique[of "\<lparr> st_db = db, st_domains = [], st_saved = 0 \<rparr>" E T 0 items]
  by (simp add: save_def Let_def unique_keys_def)

lemma save_all_unique: "unique_keys db \<Longrightarrow> unique_keys (save_all E db calls)"
  by (induction calls arbitrary: db) (auto simp: save_unique)

text \<open>Rows are only ever appended.\<close>

lemma save_item_prefix:
  "prefix (collected_data (st_db st)) (collected_data (st_db (save_item E T k it st)))"
  unfolding save_item_def
  by (auto simp: Let_def insert_or_ignore_def split: save_item_splits)

lemma save_items_prefix:
  "prefix (collected_data (st_db st)) (collected_data (st_db (save_items E T k items st)))"
proof (induction items arbitrary: k st)
  case Nil
  then show ?case by simp
next
  case (Cons it items)
  have "prefix (collected_data (st_db st)) (collected_data (st_db (save_item E T k it st)))"
    by (rule save_item_prefix)
  moreover have "prefix (collected_data (st_db (save_item E T k it st)))
      (collected_data (st_db (save_items E T (Suc k) items (save_item E T k it st))))"
    by (rule Cons.IH)
  ultimately show ?case by (auto intro: prefix_order.trans)
qed

lemma save_rows:
  "collected_data (snd (save E T db items)) =
     collected_data (st_db (save_items E T 0 items \<lparr> st_db = db, st_domains = [], st_saved = 0 \<rparr>))"
  by (simp add: save_def Let_def)

lemma save_prefix: "prefix (collected_data db) (collected_data (snd (save E T db items)))"
  using save_items_prefix[of "\<lparr> st_db = db, st_domains = [], st_saved = 0 \<rparr>" E T 0 items]
  by (simp add: save_rows)

lemma save_all_prefix: "prefix (collected_data db) (collected_data (save_all E db calls))"
proof (induction calls arbitrary: db)
  case Nil
  then show ?case by simp
next
  case (Cons c calls)
  obtain T items where c: "c = (T, items)" by (cases c)
  show ?case using save_prefix[of db E T items] Cons.IH[of "snd (save E T db items)"] c
    by (auto intro: prefix_order.trans)
qed

lemma distinct_count_le_1:
  "distinct (map f xs) \<Longrightarrow> length (filter (\<lambda>x. f x = v) xs) \<le> 1"
proof (induction xs)
  case Nil
  then show ?case by simp
next
  case (Cons x xs)
  show ?case
  proof (cases "f x = v")
    case True
    then have "v \<notin> f ` set xs" using Cons.prems by auto
    then have "filter (\<lambda>x. f x = v) xs = []" by (auto simp: filter_empty_conv)
    then show ?thesis using True by simp
  next
    case False
    then show ?thesis using Cons by simp
  qed
qed

lemma distinct_count_eq_1:
  assumes "distinct (map f xs)" "x \<in> set xs" "f x = v"
  shows "length (filter (\<lambda>x. f x = v) xs) = 1"
proof -
  have "x \<in> set (filter (\<lambda>x. f x = v) xs)" using assms by simp
  then have "length (filter (\<lambda>x. f x = v) xs) \<noteq> 0" by (metis empty_iff empty_set length_0_conv)
  moreover have "length (filter (\<lambda>x. f x = v) xs) \<le> 1"
    by (rule distinct_count_le_1[OF assms(1)])
  ultimately show ?thesis by linarith
qed

text \<open>Saving one item.\<close>

lemma save_single_rows:
  assumes "i_url it = Some url" "content_hash E it = Inr h" "domain_of it = Inr d"
    "encrypted_content E (entropy T 0) it = Inr c"
  shows "collected_data (snd (save E T db [it])) =
           collected_data db @
             (if conflicts (collected_data db) url h then []
              else [\<lparr> r_id = Suc (length (collected_data db)),
                      r_data_type = (case i_type it of None \<Rightarrow> ''unknown'' | Some t \<Rightarrow> t),
                      r_title = take 500 (case i_title it of None \<Rightarrow> ''No title'' | Some t \<Rightarrow> t),
                      r_url = url, r_content = c, r_timestamp = db_clock T 0,
                      r_source_hash = h, r_is_sensitive = 0 \<rparr>])"
  using assms by (simp add: save_def save_item_def Let_def insert_or_ignore_def)

lemma save_single_known:
  assumes "i_url it = Some url" "content_hash E it = Inr h" "conflicts (collected_data db) url h"
  shows "collected_data (snd (save E T db [it])) = collected_data db"
  using assms
  by (auto simp: save_def save_item_def Let_def insert_or_ignore_def split: save_item_splits)

lemma save_twice:
  assumes "i_url it = Some url" "content_hash E it = Inr h" "domain_of it = Inr d"
    "\<not> conflicts (collected_data db) url h"
  shows "length (collected_data (snd (save E T1 db [it]))) = length (collected_data db) + 1"
    and "collected_data (snd (save E T2 (snd (save E T1 db [it])) [it])) =
           collected_data (snd (save E T1 db [it]))"
    and "\<exists>row\<in>set (collected_data (snd (save E T1 db [it]))). r_url row = url \<and> r_source_hash row = h"
proof -
  obtain c where c: "encrypted_content E (entropy T1 0) it = Inr c"
    using encrypted_content_total by blast
  note r = save_single_rows[OF assms(1,2,3) c, of db]
  show "length (collected_data (snd (save E T1 db [it]))) = length (collected_data db) + 1"
    using r assms(4) by simp
  show "\<exists>row\<in>set (collected_data (snd (save E T1 db [it]))). r_url row = url \<and> r_source_hash row = h"
    using r assms(4) by simp
  then have "conflicts (collected_data (snd (save E T1 db [it]))) url h"
    by (auto simp: conflicts_def list_ex_iff)
  then show "collected_data (snd (save E T2 (snd (save E T1 db [it])) [it])) =
           collected_data (snd (save E T1 db [it]))"
    by (rule save_single_known[OF assms(1,2)])
qed

lemma prefix_member: "prefix xs ys \<Longrightarrow> x \<in> set xs \<Longrightarrow> x \<in> set ys"
  by (auto simp: prefix_def)

lemma conflicts_prefix: "prefix rows rows' \<Longrightarrow> conflicts rows url h \<Longrightarrow> conflicts rows' url h"
  by (auto simp: conflicts_iff prefix_def)

lemma save_item_known:
  assumes "i_url it = Some url" "content_hash E it = Inr h" "domain_of it = Inr d"
  shows "conflicts (collected_data (st_db (save_item E T k it st))) url h"
proof -
  obtain c where c: "encrypted_content E (entropy T k) it = Inr c"
    using encrypted_content_total by blast
  show ?thesis using assms c
    by (auto simp: save_item_def Let_def insert_or_ignore_def conflicts_iff)
qed

lemma save_items_known:
  assumes "it \<in> set items" "i_url it = Some url" "content_hash E it = Inr h" "domain_of it = Inr d"
  shows "conflicts (collected_data (st_db (save_items E T k items st))) url h"
  using assms(1)
proof (induction items arbitrary: k st)
  case Nil
  then show ?case by simp
next
  case (Cons x items)
  show ?case
  proof (cases "it = x")
    case True
    have "conflicts (collected_data (st_db (save_item E T k x st))) url h"
      using True assms(2,3,4) by (simp add: save_item_known)
    moreover have "prefix (collected_data (st_db (save_item E T k x st)))
        (collected_data (st_db (save_items E T (Suc k) items (save_item E T k x st))))"
      by (rule save_items_prefix)
    ultimately show ?thesis by (simp add: conflicts_prefix)
  next
    case False
    then have "it \<in> set items" using Cons.prems by simp
    then show ?thesis using Cons.IH by simp
  qed
qed

lemma save_known:
  assumes "it \<in> set items" "i_url it = Some url" "content_hash E it = Inr h" "domain_of it = Inr d"
  shows "conflicts (collected_data (snd (save E T db items))) url h"
  using save_items_known[OF assms] by (simp add: save_rows)

lemma save_all_known:
  assumes "(T, items) \<in> set calls" "it \<in> set items"
    "i_url it = Some url" "content_hash E it = Inr h" "domain_of it = Inr d"
  shows "conflicts (collected_data (save_all E db calls)) url h"
  using assms(1)
proof (induction calls arbitrary: db)
  case Nil
  then show ?case by simp
next
  case (Cons c calls)
  obtain T' items' where c: "c = (T', items')" by (cases c)
  show ?case
  proof (cases "c = (T, items)")
    case True
    have "conflicts (collected_data (snd (save E T db items))) url h"
      using assms(2-5) by (rule save_known)
    moreover have "prefix (collected_data (snd (save E T db items)))
        (collected_data (save_all E (snd (save E T db items)) calls))"
      by (rule save_all_prefix)
    ultimately show ?thesis using True by (simp add: conflicts_prefix)
  next
    case False
    then have "(T, items) \<in> set calls" using Cons.prems by simp
    then show ?thesis using Cons.IH c by simp
  qed
qed

text \<open>
  Claim C1. Starting from a store that satisfies its uniqueness constraints (the empty
  store does), after every sequence of calls of \<open>save\<close> the url and the fingerprint of
  the rows are pairwise different, so at most one row has a given fingerprint. For an
  item with a url (of the shape \<open>scheme://host...\<close>) that the store does not know yet,
  saving it twice makes the store exactly one row larger, and after any further sequence
  of calls exactly one row has its fingerprint and exactly one row has its url. Saving
  an item whose url or fingerprint is already stored leaves the rows as they are and
  returns \<open>False\<close>; it is not an error. Every such item of every batch of a sequence is
  known to the store afterwards: a row has its url or its fingerprint.
\<close>

theorem dedup_invariant:
  assumes "unique_keys db"
  shows "unique_keys (save_all E db calls) \<and>
    (\<forall>h'. length (filter (\<lambda>r. r_source_hash r = h') (collected_data (save_all E db calls))) \<le> 1) \<and>
    (i_url it = Some url \<and> content_hash E it = Inr h \<and> domain_of it = Inr d \<and>
     \<not> conflicts (collected_data db) url h \<longrightarrow>
       length (collected_data (snd (save E T2 (snd (save E T1 db [it])) [it]))) =
         length (collected_data db) + 1 \<and>
       length (filter (\<lambda>r. r_source_hash r = h)
                 (collected_data (save_all E (snd (save E T1 db [it])) calls))) = 1 \<and>
       length (filter (\<lambda>r. r_url r = url)
                 (collected_data (save_all E (snd (save E T1 db [it])) calls))) = 1) \<and>
    (i_url it = Some url \<and> content_hash E it = Inr h \<and> conflicts (collected_data db) url h \<longrightarrow>
       collected_data (snd (save E T1 db [it])) = collected_data db \<and>
       fst (save E T1 db [it]) = False) \<and>
    ((T, items) \<in> set calls \<and> it \<in> set items \<and>
     i_url it = Some url \<and> content_hash E it = Inr h \<and> domain_of it = Inr d \<longrightarrow>
       conflicts (collected_data (save_all E db calls)) url h)"
proof (intro conjI impI allI)
  show u: "unique_keys (save_all E db calls)" using assms by (rule save_all_unique)
  show "length (filter (\<lambda>r. r_source_hash r = h') (collected_data (save_all E db calls))) \<le> 1" for h'
  proof -
    have "distinct (map r_source_hash (collected_data (save_all E db calls)))"
      using u by (simp add: unique_keys_def)
    then show ?thesis by (rule distinct_count_le_1)
  qed
next
  assume a: "i_url it = Some url \<and> content_hash E it = Inr h \<and> domain_of it = Inr d \<and>
     \<not> conflicts (collected_data db) url h"
  let ?db1 = "snd (save E T1 db [it])"
  have a1: "i_url it = Some url" and a2: "content_hash E it = Inr h"
    and a3: "domain_of it = Inr d" and a4: "\<not> conflicts (collected_data db) url h"
    using a by simp_all
  note tw = save_twice[OF a1 a2 a3 a4]
  show "length (collected_data (snd (save E T2 ?db1 [it]))) = length (collected_data db) + 1"
    using tw(1,2) by simp
  obtain row where row: "row \<in> set (collected_data ?db1)" "r_url row = url" "r_source_hash row = h"
    using tw(3) by blast
  have mem: "row \<in> set (collected_data (save_all E ?db1 calls))"
    using save_all_prefix[of ?db1 E calls] row(1) by (rule prefix_member)
  have "unique_keys ?db1" using assms by (rule save_unique)
  then have u: "unique_keys (save_all E ?db1 calls)" by (rule save_all_unique)
  show "length (filter (\<lambda>r. r_source_hash r = h) (collected_data (save_all E ?db1 calls))) = 1"
    using u mem row(3) by (intro distinct_count_eq_1[where x = row]) (simp_all add: unique_keys_def)
  show "length (filter (\<lambda>r. r_url r = url) (collected_data (save_all E ?db1 calls))) = 1"
    using u mem row(2) by (intro distinct_count_eq_1[where x = row]) (simp_all add: unique_keys_def)
next
  assume a: "i_url it = Some url \<and> content_hash E it = Inr h \<and> conflicts (collected_data db) url h"
  then show "collected_data (snd (save E T1 db [it])) = collected_data db"
    by (intro save_single_known[where url = url and h = h]) simp_all
  show "fst (save E T1 db [it]) = False"
    using a by (auto simp: save_def save_item_def Let_def insert_or_ignore_def split: save_item_splits)
next
  assume "(T, items) \<in> set calls \<and> it \<in> set items \<and>
     i_url it = Some url \<and> content_hash E it = Inr h \<and> domain_of it = Inr d"
  then show "conflicts (collected_data (save_all E db calls)) url h"
    by (intro save_all_known[where T = T and items = items and it = it and d = d]) simp_all
qed

theorem dedup_invariant_witness:
  "unique_keys empty_db \<and>
   i_url page_a = Some ''http://abcdefghijklmnop.onion/a'' \<and>
   domain_of page_a = Inr ''abcdefghijklmnop.onion'' \<and>
   length (collected_data
     (snd (save toy_env call0 (snd (save toy_env call0 empty_db [page_a])) [page_a]))) = 1 \<and>
   unique_keys (save_all toy_env empty_db [(call0, [page_a]), (call0, [page_a])])"
proof -
  have u: "unique_keys empty_db" by (simp add: unique_keys_def empty_db_def)
  have url: "i_url page_a = Some ''http://abcdefghijklmnop.onion/a''" by (simp add: page_a_def)
  have d: "domain_of page_a = Inr ''abcdefghijklmnop.onion''"
    by (simp add: domain_of_def page_a_def)
  obtain h where h: "content_hash toy_env page_a = Inr h" using content_hash_total by blast
  have nc: "\<not> conflicts (collected_data empty_db) ''http://abcdefghijklmnop.onion/a'' h"
    by (simp add: conflicts_def empty_db_def)
  note t = dedup_invariant [OF u, of toy_env "[(call0, [page_a]), (call0, [page_a])]" page_a
      "''http://abcdefghijklmnop.onion/a''" h "''abcdefghijklmnop.onion''" call0 call0]
  have "length (collected_data
     (snd (save toy_env call0 (snd (save toy_env call0 empty_db [page_a])) [page_a]))) = 1"
    using t url h d nc by (simp add: empty_db_def)
  moreover have "unique_keys (save_all toy_env empty_db [(call0, [page_a]), (call0, [page_a])])"
    using t by blast
  ultimately show ?thesis using u url d by blast
qed

text \<open>The counters and the domain set of the loop.\<close>

lemma save_item_saved:
  "st_saved (save_item E T k it st) + length (collected_data (st_db st)) =
     st_saved st + length (collected_data (st_db (save_item E T k it st)))"
  unfolding save_item_def
  by (auto simp: Let_def insert_or_ignore_def split: save_item_splits)

lemma save_item_meta: "scan_meta (st_db (save_item E T k it st)) = scan_meta (st_db st)"
  unfolding save_item_def
  by (auto simp: Let_def insert_or_ignore_def split: save_item_splits)

lemma add_domain_distinct: "distinct ds \<Longrightarrow> distinct (add_domain d ds)"
  by (simp add: add_domain_def)

lemma set_add_domain: "set (add_domain d ds) = insert d (set ds)"
  by (auto simp: add_domain_def)

lemma save_item_domains_distinct:
  "distinct (st_domains st) \<Longrightarrow> distinct (st_domains (save_item E T k it st))"
  unfolding save_item_def
  by (auto simp: Let_def add_domain_distinct split: save_item_splits)

lemma save_item_domains:
  "set (st_domains (save_item E T k it st)) =
     set (st_domains st) \<union> {d. domain_of it = Inr d}"
proof -
  obtain h where h: "content_hash E it = Inr h" using content_hash_total by blast
  obtain c where c: "encrypted_content E (entropy T k) it = Inr c"
    using encrypted_content_total by blast
  show ?thesis
  proof (cases "domain_of it")
    case (Inl e)
    then show ?thesis using h c by (simp add: save_item_def)
  next
    case (Inr d)
    then show ?thesis using h c
      by (auto simp: save_item_def Let_def set_add_domain split: option.splits prod.splits)
  qed
qed

lemma save_items_saved:
  "st_saved (save_items E T k items st) + length (collected_data (st_db st)) =
     st_saved st + length (collected_data (st_db (save_items E T k items st)))"
proof (induction items arbitrary: k st)
  case Nil
  then show ?case by simp
next
  case (Cons it items)
  show ?case
    using Cons.IH[of "Suc k" "save_item E T k it st"] save_item_saved[of E T k it st] by simp
qed

lemma save_items_meta: "scan_meta (st_db (save_items E T k items st)) = scan_meta (st_db st)"
  by (induction items arbitrary: k st) (simp_all add: save_item_meta)

lemma save_items_domains_distinct:
  "distinct (st_domains st) \<Longrightarrow> distinct (st_domains (save_items E T k items st))"
  by (induction items arbitrary: k st) (simp_all add: save_item_domains_distinct)

lemma save_items_domains:
  "set (st_domains (save_items E T k items st)) =
     set (st_domains st) \<union> {d. \<exists>it\<in>set items. domain_of it = Inr d}"
proof (induction items arbitrary: k st)
  case Nil
  then show ?case by simp
next
  case (Cons it items)
  show ?case
    unfolding save_items.simps Cons.IH save_item_domains by auto
qed

text \<open>
  Counterexample to claim C6 as stated: \<open>save\<close> of an empty batch returns before it
  touches the database, so no ScanMetadata record is appended.
\<close>

theorem save_empty_batch_no_metadata:
  "save toy_env call0 empty_db [] = (False, empty_db) \<and>
   scan_meta (snd (save toy_env call0 empty_db [])) = []"
  by (simp add: save_def empty_db_def)

text \<open>
  Claim C6, amended. Every call of \<open>save\<close> with a batch that is not empty appends
  exactly one ScanMetadata record, also when no item ends up saved: it records the start
  time of the call, the number of rows that the call added, and at most ten domains, each
  the domain of an item of the batch and no two the same (ten of them when the batch has
  more than ten). A call with an empty batch returns at once and appends nothing.
\<close>

theorem save_appends_scan_metadata:
  assumes "items \<noteq> []"
  shows "\<exists>m ds. scan_meta (snd (save E T db items)) = scan_meta db @ [m] \<and>
      m_scan_start m = scan_clock T \<and> m_scan_end m = None \<and>
      m_items_collected m + length (collected_data db) =
        length (collected_data (snd (save E T db items))) \<and>
      fst (save E T db items) = (0 < m_items_collected m) \<and>
      m_domains_scanned m = py_join '','' ds \<and> distinct ds \<and>
      set ds \<subseteq> {d. \<exists>it\<in>set items. domain_of it = Inr d} \<and>
      length ds = min 10 (card {d. \<exists>it\<in>set items. domain_of it = Inr d})"
proof -
  let ?init = "\<lparr> st_db = db, st_domains = [], st_saved = 0 \<rparr>"
  let ?st = "save_items E T 0 items ?init"
  let ?m = "\<lparr> m_id = Suc (length (scan_meta (st_db ?st))), m_scan_start = scan_clock T,
              m_scan_end = None, m_items_collected = st_saved ?st,
              m_domains_scanned = py_join '','' (take 10 (st_domains ?st)) \<rparr>"
  let ?D = "{d. \<exists>it\<in>set items. domain_of it = Inr d}"
  have meta: "scan_meta (st_db ?st) = scan_meta db"
    using save_items_meta[of E T 0 items ?init] by simp
  have saved: "st_saved ?st + length (collected_data db) = length (collected_data (st_db ?st))"
    using save_items_saved[of E T 0 items ?init] by simp
  have dist: "distinct (st_domains ?st)"
    using save_items_domains_distinct[of ?init E T 0 items] by simp
  have doms: "set (st_domains ?st) = ?D"
    using save_items_domains[of E T 0 items ?init] by simp
  have len: "length (st_domains ?st) = card ?D"
    using dist doms distinct_card by fastforce
  have 1: "scan_meta (snd (save E T db items)) = scan_meta db @ [?m]"
    using assms meta by (simp add: save_def Let_def)
  have 2: "m_items_collected ?m + length (collected_data db) =
        length (collected_data (snd (save E T db items)))"
    using assms saved by (simp add: save_def Let_def)
  have 3: "fst (save E T db items) = (0 < m_items_collected ?m)"
    using assms by (simp add: save_def Let_def)
  have 4: "distinct (take 10 (st_domains ?st))" using dist by simp
  have 5: "set (take 10 (st_domains ?st)) \<subseteq> ?D" using set_take_subset[of 10 "st_domains ?st"] doms by auto
  have 6: "length (take 10 (st_domains ?st)) = min 10 (card ?D)" using len by simp
  show ?thesis
    apply (rule exI[of _ ?m])
    apply (rule exI[of _ "take 10 (st_domains ?st)"])
    using 1 2 3 4 5 6 by simp
qed

theorem save_appends_scan_metadata_witness:
  "[page_a] \<noteq> [] \<and>
   (\<exists>m. scan_meta (snd (save toy_env call0 empty_db [page_a])) = [m] \<and>
        m_scan_start m = 100 \<and>
        m_items_collected m = length (collected_data (snd (save toy_env call0 empty_db [page_a]))))"
proof -
  have ne: "[page_a] \<noteq> []" by simp
  show ?thesis
    using save_appends_scan_metadata [OF ne, of toy_env call0 empty_db]
    by (auto simp: empty_db_def call0_def)
qed











section \<open>Properties of wipe\<close>

lemma db_name_neq_key_file: "db_name \<noteq> key_file"
  by (simp add: db_name_def key_file_def)

text \<open>
  What \<open>wipe\<close> does to a store whose file exists: the operations in their order, and the
  absence of both files afterwards. The write between the truncation and the removal
  carries no byte.
\<close>

lemma wipe_trace:
  assumes "path_exists fs db_name"
  shows "fst (wipe rand fs) = True"
    and "fs_log (snd (wipe rand fs)) =
           fs_log fs @ [Truncate db_name, Write db_name [], Remove db_name] @
           (if path_exists fs key_file then [Remove key_file] else [])"
    and "files (snd (wipe rand fs)) db_name = None"
    and "files (snd (wipe rand fs)) key_file = None"
  using assms db_name_neq_key_file
  by (auto simp: wipe_def wipe_db_def open_wb_def getsize_def file_write_def os_remove_def
      path_exists_def urandom_def Let_def)

text \<open>
  Claim C9 at a concrete store: the file of three bytes is truncated, the write of
  \<open>os.urandom(os.path.getsize(...))\<close> writes zero bytes, then the file and the key are
  removed. The order of the operations and the absence of both files are as the claim
  says; the overwrite with random bytes does not take place.
\<close>

theorem wipe_writes_zero_random_bytes:
  "fst (wipe (\<lambda>i. 170) disk0) = True \<and>
   fs_log (snd (wipe (\<lambda>i. 170) disk0)) =
     [Truncate db_name, Write db_name [], Remove db_name, Remove key_file] \<and>
   files (snd (wipe (\<lambda>i. 170) disk0)) db_name = None \<and>
   files (snd (wipe (\<lambda>i. 170) disk0)) key_file = None \<and>
   urandom (\<lambda>i. 170) 3 = [170, 170, 170]"
proof -
  have e: "path_exists disk0 db_name" "path_exists disk0 key_file"
    by (simp_all add: path_exists_def disk0_def)
  have u: "urandom (\<lambda>i. 170) 3 = [170, 170, 170]"
    by (simp add: urandom_def upt_rec)
  show ?thesis using wipe_trace[OF e(1), of "\<lambda>i. 170"] e(2) u
    by (simp add: disk0_def)
qed

end
